theory Spec2Isabelle
  imports Main
begin

section \<open>Data model\<close>

text \<open>
  The monitoring layer of naria2 (\<^verbatim>\<open>client.ts\<close>, \<^verbatim>\<open>monitor.ts\<close>) is asynchronous
  TypeScript. An \<^verbatim>\<open>async\<close> function runs synchronously up to its first \<^verbatim>\<open>await\<close>,
  and each later segment runs when the awaited promise has settled; between two
  segments any other pending segment of the program may run. The embedding keeps
  exactly this structure: a call returns the state after its synchronous prefix
  together with a resumption, and a scheduler decides which resumption runs next.
\<close>

datatype error = ConnectionClosed | RpcError string

text \<open>The part of an aria2 status object that the monitor reads. Every field is
  optional on the wire; an entry of a multicall answer that reports a failure
  carries none of them.\<close>

record bittorrent_info =
  info_name :: "string option"

record status =
  gid :: "string option"
  following :: "string option"
  bittorrent :: "bittorrent_info option"

text \<open>JavaScript truthiness of an optional string: \<^verbatim>\<open>undefined\<close> and \<^verbatim>\<open>''\<close>
  are falsy.\<close>

definition truthy :: "string option \<Rightarrow> bool" where
  "truthy v = (case v of None \<Rightarrow> False | Some x \<Rightarrow> x \<noteq> [])"

text \<open>Modelled from the spec: the classes \<^verbatim>\<open>Task\<close> and \<^verbatim>\<open>Torrent\<close> of
  \<^verbatim>\<open>./torrent\<close> are not part of the sources at hand. Following section 3 of the
  specification a task has an immutable gid, a status snapshot and a timestamp,
  and a torrent additionally has an optional reference to its parent task, fixed
  at construction. Objects live in a heap and are referred to by their address,
  so that identity of instances is equality of addresses.\<close>

datatype task_class = Task | Torrent "nat option"

record task =
  task_class :: task_class
  task_gid :: string
  task_status :: "status option"
  task_timestamp :: "nat option"

datatype request =
  TellStatus string
| Multicall "string list"
| TellActive
| AddUri "string list"

datatype notification =
  DownloadStart | DownloadPause | DownloadStop
| DownloadComplete | BtDownloadComplete | DownloadError

datatype disposable = Subscription nat | Interval nat

text \<open>
  The state has three parts. The fields of \<^verbatim>\<open>Aria2Monitor\<close> (\<open>disposables\<close>,
  \<open>emitter\<close>, \<open>task_map\<close> for the field \<^verbatim>\<open>map\<close>, \<open>progressIds\<close>; the JavaScript
  \<^verbatim>\<open>Set\<close>s are lists without repetition in insertion order, which is the order in
  which they are iterated) and of \<^verbatim>\<open>Aria2Client\<close> (\<open>conn_open\<close>: the field
  \<^verbatim>\<open>_conn\<close> is defined). The heap of task objects. And the environment as far as
  the monitor can observe it: the requests sent so far, the wall clock, the
  notification callbacks registered on the connection, the running interval
  timers, the events handed to the emitter, and the rejections of promises that
  nobody awaits.
\<close>

record state =
  disposables :: "disposable list"
  emitter :: "string \<Rightarrow> nat list"
  task_map :: "string \<rightharpoonup> nat"
  progressIds :: "string list"
  conn_open :: bool
  heap :: "task list"
  rpc_log :: "request list"
  clock :: nat
  conn_listeners :: "(nat \<times> notification) list"
  intervals :: "nat list"
  next_handle :: nat
  emitted :: "(string \<times> nat) list"
  unhandled :: "error list"

text \<open>The aria2 server is a parameter: its answer to a request may depend on the
  request and on how many requests it has received before.\<close>

record server =
  srv_tellStatus :: "nat \<Rightarrow> string \<Rightarrow> error + status"
  srv_multicall :: "nat \<Rightarrow> string list \<Rightarrow> error + status list"
  srv_tellActive :: "nat \<Rightarrow> error + status list"
  srv_addUri :: "nat \<Rightarrow> string list \<Rightarrow> error + string"

section \<open>Asynchronous computations\<close>

text \<open>
  A promise of an \<^verbatim>\<open>async\<close> function is fulfilled (\<open>Ret\<close>), rejected (\<open>Fail\<close>) or
  pending with the rest of the function as a resumption (\<open>Yield\<close>). \<open>Diverge\<close>
  stands for a call whose recursion bound is used up.
\<close>

datatype 'a proc =
  Ret 'a
| Fail error
| Diverge
| Yield "state \<Rightarrow> 'a proc \<times> state"

text \<open>\<^verbatim>\<open>await p\<close> followed by the rest \<open>k\<close> of the calling function. The caller
  is suspended even when \<open>p\<close> is settled already, and it resumes in a step of its
  own after \<open>p\<close> has settled. No function of the monitor catches an exception, so
  a rejection of \<open>p\<close> rejects the caller.\<close>

primrec await :: "'a proc \<Rightarrow> ('a \<Rightarrow> state \<Rightarrow> 'b proc \<times> state) \<Rightarrow> 'b proc" where
  "await (Ret v) k = Yield (k v)"
| "await (Fail e) k = Yield (\<lambda>s. (Fail e, s))"
| "await Diverge k = Diverge"
| "await (Yield f) k = Yield (\<lambda>s. map_prod (\<lambda>p. await p k) id (f s))"

text \<open>A call that runs with nothing else in between: every resumption is run as
  soon as it is pending. The first argument bounds the number of steps; \<open>None\<close>
  means that the call has not settled within the bound.\<close>

fun run :: "nat \<Rightarrow> 'a proc \<times> state \<Rightarrow> ((error + 'a) \<times> state) option" where
  "run n (Ret v, s) = Some (Inr v, s)"
| "run n (Fail e, s) = Some (Inl e, s)"
| "run n (Diverge, s) = None"
| "run 0 (Yield f, s) = None"
| "run (Suc n) (Yield f, s) = run n (f s)"

text \<open>Several pending calls: \<open>resume i\<close> runs the next segment of the \<open>i\<close>-th one,
  a schedule is the list of such choices, and \<open>spawn_all\<close> starts calls one after
  the other within one synchronous block.\<close>

definition resume :: "nat \<Rightarrow> 'a proc list \<times> state \<Rightarrow> 'a proc list \<times> state" where
  "resume i c =
     (case c of (ps, s) \<Rightarrow>
        if i < length ps then
          (case ps ! i of
             Yield f \<Rightarrow> (case f s of (p', s') \<Rightarrow> (ps[i := p'], s'))
           | _ \<Rightarrow> (ps, s))
        else (ps, s))"

definition interleave :: "nat list \<Rightarrow> 'a proc list \<times> state \<Rightarrow> 'a proc list \<times> state" where
  "interleave sched c = fold resume sched c"

fun spawn_all :: "(state \<Rightarrow> 'a proc \<times> state) list \<Rightarrow> state \<Rightarrow> 'a proc list \<times> state" where
  "spawn_all [] s = ([], s)"
| "spawn_all (c # cs) s =
     (case c s of (p, s1) \<Rightarrow>
        (case spawn_all cs s1 of (ps, s2) \<Rightarrow> (p # ps, s2)))"

section \<open>The monitor\<close>

subsection \<open>Remote calls\<close>

text \<open>Sending a request appends it to the log; the answer is the one the server
  gives to a request with that many predecessors.\<close>

definition sent :: "request \<Rightarrow> state \<Rightarrow> state" where
  "sent q s = s\<lparr>rpc_log := rpc_log s @ [q]\<rparr>"

definition tellStatus :: "server \<Rightarrow> string \<Rightarrow> state \<Rightarrow> (error + status) \<times> state" where
  "tellStatus E g s = (srv_tellStatus E (length (rpc_log s)) g, sent (TellStatus g) s)"

definition multicall :: "server \<Rightarrow> string list \<Rightarrow> state \<Rightarrow> (error + status list) \<times> state" where
  "multicall E ids s = (srv_multicall E (length (rpc_log s)) ids, sent (Multicall ids) s)"

definition tellActive :: "server \<Rightarrow> state \<Rightarrow> (error + status list) \<times> state" where
  "tellActive E s = (srv_tellActive E (length (rpc_log s)), sent TellActive s)"

definition addUri :: "server \<Rightarrow> string list \<Rightarrow> state \<Rightarrow> (error + string) \<times> state" where
  "addUri E uris s = (srv_addUri E (length (rpc_log s)) uris, sent (AddUri uris) s)"

subsection \<open>Task objects\<close>

text \<open>\<^verbatim>\<open>new Task(client, gid)\<close> and \<^verbatim>\<open>new Torrent(client, gid, following)\<close>: the
  new object gets the next free address.\<close>

definition new_task :: "task_class \<Rightarrow> string \<Rightarrow> state \<Rightarrow> nat \<times> state" where
  "new_task c g s =
     (length (heap s),
      s\<lparr>heap := heap s @
         [\<lparr>task_class = c, task_gid = g, task_status = None, task_timestamp = None\<rparr>]\<rparr>)"

text \<open>The two \<^verbatim>\<open>Reflect.set\<close> calls that store a status and \<^verbatim>\<open>new Date()\<close> in a
  task. The address comes from the registry or from \<open>new_task\<close> and is therefore
  in range.\<close>

definition set_status :: "nat \<Rightarrow> status \<Rightarrow> state \<Rightarrow> state" where
  "set_status r st s =
     s\<lparr>heap := (heap s)[r := (heap s ! r)\<lparr>task_status := Some st,
                                           task_timestamp := Some (clock s)\<rparr>]\<rparr>"

text \<open>\<^verbatim>\<open>this.emitter.emit(key, task)\<close>.\<close>

definition emit :: "string \<Rightarrow> nat \<Rightarrow> state \<Rightarrow> state" where
  "emit key r s = s\<lparr>emitted := emitted s @ [(key, r)]\<rparr>"

subsection \<open>getTask\<close>

text \<open>Lines 254 to 262 of \<^verbatim>\<open>getTask\<close>: construct the object, enter it into
  the registry, store the status, return it.\<close>

definition getTask_construct :: "string \<Rightarrow> status \<Rightarrow> nat option \<Rightarrow> state \<Rightarrow> nat proc \<times> state" where
  "getTask_construct g st parent s =
     (case new_task (if bittorrent st \<noteq> None then Torrent parent else Task) g s of
        (r, s1) \<Rightarrow> (Ret r, set_status r st (s1\<lparr>task_map := (task_map s1)(g \<mapsto> r)\<rparr>)))"

text \<open>The rest of \<^verbatim>\<open>getTask\<close> after the answer to \<^verbatim>\<open>tellStatus\<close> has arrived
  (lines 247 to 262); \<open>rec\<close> is the recursive call.\<close>

definition getTask_resumed ::
  "(string \<Rightarrow> state \<Rightarrow> nat proc \<times> state) \<Rightarrow> string \<Rightarrow> error + status \<Rightarrow> state \<Rightarrow> nat proc \<times> state" where
  "getTask_resumed rec g resp s =
     (case resp of
        Inl e \<Rightarrow> (Fail e, s)
      | Inr st \<Rightarrow>
          (case task_map s g of
             Some r \<Rightarrow> (Ret r, s)
           | None \<Rightarrow>
               (case following st of
                  None \<Rightarrow> getTask_construct g st None s
                | Some f \<Rightarrow>
                    if f = [] then getTask_construct g st None s
                    else (case rec f s of
                            (p, s1) \<Rightarrow> (await p (\<lambda>parent. getTask_construct g st (Some parent)), s1)))))"

text \<open>\<^verbatim>\<open>getTask\<close>. The first argument bounds the depth of the recursion along
  \<^verbatim>\<open>following\<close>. Reading \<^verbatim>\<open>this.conn\<close> throws when the client has been closed.\<close>

fun getTask :: "nat \<Rightarrow> server \<Rightarrow> string \<Rightarrow> state \<Rightarrow> nat proc \<times> state" where
  "getTask 0 E g s = (Diverge, s)"
| "getTask (Suc n) E g s =
     (case task_map s g of
        Some r \<Rightarrow> (Ret r, s)
      | None \<Rightarrow>
          if \<not> conn_open s then (Fail ConnectionClosed, s)
          else (case tellStatus E g s of
                  (resp, s1) \<Rightarrow> (Yield (getTask_resumed (getTask n E) g resp), s1)))"

definition watchStatus :: "nat \<Rightarrow> server \<Rightarrow> string \<Rightarrow> state \<Rightarrow> nat proc \<times> state" where
  "watchStatus n E g s =
     (case getTask n E g s of (p, s1) \<Rightarrow> (await p (\<lambda>task s. (Ret task, s)), s1))"


subsection \<open>Event subscriptions\<close>

text \<open>The emitter is the library \<^verbatim>\<open>mitt\<close>: a table from event keys to the list of
  handlers registered for the key. \<^verbatim>\<open>on\<close> appends the handler; \<^verbatim>\<open>off\<close> removes
  its first occurrence, or all handlers of the key when no handler is given.
  Handlers are represented by numbers.\<close>

definition mitt_on :: "string \<Rightarrow> nat \<Rightarrow> (string \<Rightarrow> nat list) \<Rightarrow> (string \<Rightarrow> nat list)" where
  "mitt_on key handler all = all(key := all key @ [handler])"

definition mitt_off :: "string \<Rightarrow> nat option \<Rightarrow> (string \<Rightarrow> nat list) \<Rightarrow> (string \<Rightarrow> nat list)" where
  "mitt_off key handler all =
     (case handler of
        Some h \<Rightarrow> all(key := remove1 h (all key))
      | None \<Rightarrow> all(key := []))"

definition startsWith :: "string \<Rightarrow> string \<Rightarrow> bool" where
  "startsWith key p = (take (length p) key = p)"

definition set_add :: "'a \<Rightarrow> 'a list \<Rightarrow> 'a list" where
  "set_add x xs = (if x \<in> set xs then xs else xs @ [x])"

definition on :: "string \<Rightarrow> nat \<Rightarrow> state \<Rightarrow> state" where
  "on key handler s =
     (let s1 = (if startsWith key ''progress:''
                then s\<lparr>progressIds := set_add (drop (length ''progress:'') key) (progressIds s)\<rparr>
                else s)
      in s1\<lparr>emitter := mitt_on key handler (emitter s1)\<rparr>)"

definition off :: "string \<Rightarrow> nat option \<Rightarrow> state \<Rightarrow> state" where
  "off key handler s = s\<lparr>emitter := mitt_off key handler (emitter s)\<rparr>"

subsection \<open>Polling and notifications\<close>

text \<open>The loop of \<^verbatim>\<open>onDownloadProgress\<close> over the answers of the multicall
  (lines 299 to 310).\<close>

fun progress_loop :: "nat \<Rightarrow> server \<Rightarrow> status list \<Rightarrow> state \<Rightarrow> unit proc \<times> state" where
  "progress_loop n E [] s = (Ret (), s)"
| "progress_loop n E (st # statues) s =
     (if \<not> truthy (gid st) then progress_loop n E statues s
      else
        (let g = the (gid st); freshTask = (task_map s g = None) in
         case getTask n E g s of
           (p, s1) \<Rightarrow>
             (await p (\<lambda>task s2.
                progress_loop n E statues
                  (emit (''progress:'' @ g) task
                     (if \<not> freshTask then set_status task st s2 else s2))),
              s1)))"

definition onDownloadProgress :: "nat \<Rightarrow> server \<Rightarrow> state \<Rightarrow> unit proc \<times> state" where
  "onDownloadProgress n E s =
     (if progressIds s = [] then (Ret (), s)
      else if \<not> conn_open s then (Fail ConnectionClosed, s)
      else (case multicall E (progressIds s) s of
              (resp, s1) \<Rightarrow>
                (Yield (\<lambda>s2. case resp of
                                Inl e \<Rightarrow> (Fail e, s2)
                              | Inr statues \<Rightarrow> progress_loop n E statues s2),
                 s1)))"

text \<open>The callback given to \<^verbatim>\<open>setInterval\<close>.\<close>

definition interval_callback :: "nat \<Rightarrow> server \<Rightarrow> state \<Rightarrow> unit proc \<times> state" where
  "interval_callback n E s =
     (case onDownloadProgress n E s of (p, s1) \<Rightarrow> (await p (\<lambda>u s2. (Ret (), s2)), s1))"

text \<open>The six notification handlers differ in the name of the event only.\<close>

definition emit_task :: "string \<Rightarrow> nat \<Rightarrow> server \<Rightarrow> string \<Rightarrow> state \<Rightarrow> unit proc \<times> state" where
  "emit_task name n E g s =
     (case getTask n E g s of
        (p, s1) \<Rightarrow> (await p (\<lambda>task s2. (Ret (), emit (name @ '':'' @ g) task s2)), s1))"

definition onDownloadStart :: "nat \<Rightarrow> server \<Rightarrow> string \<Rightarrow> state \<Rightarrow> unit proc \<times> state" where
  "onDownloadStart = emit_task ''start''"

definition onDownloadPause :: "nat \<Rightarrow> server \<Rightarrow> string \<Rightarrow> state \<Rightarrow> unit proc \<times> state" where
  "onDownloadPause = emit_task ''pause''"

definition onDownloadStop :: "nat \<Rightarrow> server \<Rightarrow> string \<Rightarrow> state \<Rightarrow> unit proc \<times> state" where
  "onDownloadStop = emit_task ''stop''"

definition onDownloadComplete :: "nat \<Rightarrow> server \<Rightarrow> string \<Rightarrow> state \<Rightarrow> unit proc \<times> state" where
  "onDownloadComplete = emit_task ''complete''"

definition onBtDownloadComplete :: "nat \<Rightarrow> server \<Rightarrow> string \<Rightarrow> state \<Rightarrow> unit proc \<times> state" where
  "onBtDownloadComplete = emit_task ''bt-complete''"

definition onDownloadError :: "nat \<Rightarrow> server \<Rightarrow> string \<Rightarrow> state \<Rightarrow> unit proc \<times> state" where
  "onDownloadError = emit_task ''error''"

fun handler_of :: "notification \<Rightarrow> nat \<Rightarrow> server \<Rightarrow> string \<Rightarrow> state \<Rightarrow> unit proc \<times> state" where
  "handler_of DownloadStart = onDownloadStart"
| "handler_of DownloadPause = onDownloadPause"
| "handler_of DownloadStop = onDownloadStop"
| "handler_of DownloadComplete = onDownloadComplete"
| "handler_of BtDownloadComplete = onBtDownloadComplete"
| "handler_of DownloadError = onDownloadError"

subsection \<open>start and close\<close>

text \<open>\<^verbatim>\<open>aria2.when\<close> registers a callback on the connection and \<^verbatim>\<open>setInterval\<close>
  a timer; each returns a handle. Disposing of a handle removes the registration
  and has no effect when it is gone already.\<close>

definition aria2_when :: "notification \<Rightarrow> state \<Rightarrow> disposable \<times> state" where
  "aria2_when k s =
     (Subscription (next_handle s),
      s\<lparr>conn_listeners := conn_listeners s @ [(next_handle s, k)],
        next_handle := Suc (next_handle s)\<rparr>)"

definition setInterval :: "state \<Rightarrow> disposable \<times> state" where
  "setInterval s =
     (Interval (next_handle s),
      s\<lparr>intervals := intervals s @ [next_handle s], next_handle := Suc (next_handle s)\<rparr>)"

fun dispose :: "disposable \<Rightarrow> state \<Rightarrow> state" where
  "dispose (Subscription h) s = s\<lparr>conn_listeners := filter (\<lambda>l. fst l \<noteq> h) (conn_listeners s)\<rparr>"
| "dispose (Interval t) s = s\<lparr>intervals := removeAll t (intervals s)\<rparr>"

fun when_all :: "notification list \<Rightarrow> state \<Rightarrow> disposable list \<times> state" where
  "when_all [] s = ([], s)"
| "when_all (k # ks) s =
     (case aria2_when k s of
        (d, s1) \<Rightarrow> (case when_all ks s1 of (ds, s2) \<Rightarrow> (d # ds, s2)))"

definition start :: "state \<Rightarrow> (error + unit) \<times> state" where
  "start s =
     (if \<not> conn_open s then (Inl ConnectionClosed, s)
      else
        (case when_all [DownloadStart, DownloadPause, DownloadStop, DownloadComplete,
                        BtDownloadComplete, DownloadError] s of
           (ds, s1) \<Rightarrow>
             (case setInterval (s1\<lparr>disposables := fold set_add ds (disposables s1)\<rparr>) of
                (t, s2) \<Rightarrow> (Inr (), s2\<lparr>disposables := set_add t (disposables s2)\<rparr>))))"

definition close :: "state \<Rightarrow> state" where
  "close s = fold dispose (disposables s) s"

subsection \<open>The client\<close>

text \<open>\<^verbatim>\<open>downloadUri\<close> takes one URI or an array of URIs. The download options
  pass through the option resolver to the server and do not influence what the
  client does; they are part of what the server's answer may depend on.\<close>

definition uris_of :: "string + string list \<Rightarrow> string list" where
  "uris_of uri = (case uri of Inl u \<Rightarrow> [u] | Inr us \<Rightarrow> us)"

definition downloadUri :: "nat \<Rightarrow> server \<Rightarrow> string + string list \<Rightarrow> state \<Rightarrow> nat proc \<times> state" where
  "downloadUri n E uri s =
     (let uris = uris_of uri in
      if \<not> conn_open s then (Fail ConnectionClosed, s)
      else (case addUri E uris s of
              (resp, s1) \<Rightarrow>
                (Yield (\<lambda>s2. case resp of
                                Inl e \<Rightarrow> (Fail e, s2)
                              | Inr g \<Rightarrow>
                                  if \<not> conn_open s2 then (Fail ConnectionClosed, s2)
                                  else (case watchStatus n E g s2 of
                                          (p, s3) \<Rightarrow> (await p (\<lambda>task s4. (Ret task, s4)), s3))),
                 s1)))"

definition client_close :: "state \<Rightarrow> (error + unit) \<times> state" where
  "client_close s =
     (if \<not> conn_open s then (Inl ConnectionClosed, s)
      else (Inr (), (close s)\<lparr>conn_open := False\<rparr>))"

subsection \<open>listActive\<close>

text \<open>\<^verbatim>\<open>listActive\<close> awaits \<^verbatim>\<open>tellActive\<close> and then starts, within one synchronous
  block, one asynchronous function per status of the answer
  (\<^verbatim>\<open>result.map(async (status) => ...)\<close>); \<^verbatim>\<open>Promise.all\<close> waits until all of
  them have settled, and they proceed in the order in which their awaited answers
  arrive. The declared type of the answer makes the gid of each status a string;
  \<open>gid_of\<close> reads the gid of such a status. On a status without gid, which is
  outside that type, \<open>gid_of\<close> is the empty string, whereas the source would use
  \<^verbatim>\<open>undefined\<close> as the key.\<close>

definition gid_of :: "status \<Rightarrow> string" where
  "gid_of st = (case gid st of Some g \<Rightarrow> g | None \<Rightarrow> [])"

definition listActive_item :: "nat \<Rightarrow> server \<Rightarrow> status \<Rightarrow> state \<Rightarrow> nat proc \<times> state" where
  "listActive_item n E st s =
     (let freshTask = (task_map s (gid_of st) = None) in
      case getTask n E (gid_of st) s of
        (p, s1) \<Rightarrow>
          (await p (\<lambda>task s2. (Ret task, if \<not> freshTask then set_status task st s2 else s2)),
           s1))"

definition listActive_query :: "server \<Rightarrow> state \<Rightarrow> (error + status list) \<times> state" where
  "listActive_query E s = (if \<not> conn_open s then (Inl ConnectionClosed, s) else tellActive E s)"

definition listActive_map :: "nat \<Rightarrow> server \<Rightarrow> status list \<Rightarrow> state \<Rightarrow> nat proc list \<times> state" where
  "listActive_map n E result s = spawn_all (map (listActive_item n E) result) s"

text \<open>A monitor as its constructor leaves it, on an open connection.\<close>

definition new_monitor :: state where
  "new_monitor =
     \<lparr>disposables = [], emitter = (\<lambda>key. []), task_map = Map.empty, progressIds = [],
      conn_open = True, heap = [], rpc_log = [], clock = 0, conn_listeners = [],
      intervals = [], next_handle = 0, emitted = [], unhandled = []\<rparr>"


section \<open>Background activity\<close>

text \<open>
  Notification callbacks and the timer callback are started by the runtime, which
  drops the promise they return: when such a call is rejected, nobody handles the
  rejection. The configuration of the running monitor is the list of background
  calls together with the state. The environment delivers a notification to
  every callback registered for it, fires a timer that is still running, or lets
  a pending call run its next segment.
\<close>

datatype event =
  Notification notification string
| Timeout nat
| Resume nat

definition settle :: "unit proc \<Rightarrow> state \<Rightarrow> state" where
  "settle p s = (case p of Fail e \<Rightarrow> s\<lparr>unhandled := unhandled s @ [e]\<rparr> | _ \<Rightarrow> s)"

definition spawn ::
  "(state \<Rightarrow> unit proc \<times> state) \<Rightarrow> unit proc list \<times> state \<Rightarrow> unit proc list \<times> state" where
  "spawn c cfg = (case cfg of (ps, s) \<Rightarrow> (case c s of (p, s1) \<Rightarrow> (ps @ [p], settle p s1)))"

definition pending :: "'a proc \<Rightarrow> bool" where
  "pending p = (case p of Yield f \<Rightarrow> True | _ \<Rightarrow> False)"

fun deliver :: "nat \<Rightarrow> server \<Rightarrow> event \<Rightarrow> unit proc list \<times> state \<Rightarrow> unit proc list \<times> state" where
  "deliver n E (Notification k g) (ps, s) =
     fold (\<lambda>l. spawn (handler_of k n E g))
          (filter (\<lambda>l. snd l = k) (conn_listeners s)) (ps, s)"
| "deliver n E (Timeout t) (ps, s) =
     (if t \<in> set (intervals s) then spawn (interval_callback n E) (ps, s) else (ps, s))"
| "deliver n E (Resume i) (ps, s) =
     (if i < length ps \<and> pending (ps ! i)
      then (case resume i (ps, s) of (ps', s') \<Rightarrow> (ps', settle (ps' ! i) s'))
      else (ps, s))"

section \<open>Properties of states and of calls\<close>

text \<open>Every segment of a computation relates the state before it to the state
  after it by \<open>R\<close>.\<close>

inductive steps_in :: "(state \<Rightarrow> state \<Rightarrow> bool) \<Rightarrow> 'a proc \<Rightarrow> bool" for R where
  steps_in_Ret: "steps_in R (Ret v)"
| steps_in_Fail: "steps_in R (Fail e)"
| steps_in_Diverge: "steps_in R Diverge"
| steps_in_Yield: "(\<And>s. R s (snd (f s))) \<Longrightarrow> (\<And>s. steps_in R (fst (f s))) \<Longrightarrow> steps_in R (Yield f)"

definition call_in :: "(state \<Rightarrow> state \<Rightarrow> bool) \<Rightarrow> (state \<Rightarrow> 'a proc \<times> state) \<Rightarrow> bool" where
  "call_in R c = (\<forall>s. R s (snd (c s)) \<and> steps_in R (fst (c s)))"

text \<open>The registry is well formed: every entry refers to an object of the heap
  that carries the gid it is registered under.\<close>

definition registry_ok :: "state \<Rightarrow> bool" where
  "registry_ok s =
     (\<forall>g r. task_map s g = Some r \<longrightarrow> r < length (heap s) \<and> task_gid (heap s ! r) = g)"

text \<open>What only \<^verbatim>\<open>on\<close>, \<^verbatim>\<open>off\<close>, \<^verbatim>\<open>start\<close> and \<^verbatim>\<open>close\<close> write.\<close>

definition same_subscriptions :: "state \<Rightarrow> state \<Rightarrow> bool" where
  "same_subscriptions s s' =
     (progressIds s' = progressIds s \<and> emitter s' = emitter s
      \<and> disposables s' = disposables s \<and> conn_listeners s' = conn_listeners s
      \<and> intervals s' = intervals s \<and> next_handle s' = next_handle s
      \<and> conn_open s' = conn_open s)"

text \<open>Every registration on the connection and every timer is one that
  \<^verbatim>\<open>start\<close> has recorded in \<open>disposables\<close>.\<close>

definition owned :: "state \<Rightarrow> bool" where
  "owned s =
     ((\<forall>l \<in> set (conn_listeners s). Subscription (fst l) \<in> set (disposables s))
      \<and> (\<forall>t \<in> set (intervals s). Interval t \<in> set (disposables s)))"


text \<open>Objects are never removed from the heap, and an object that exists is not
  changed: the heap of the later state extends the heap of the earlier one.\<close>

definition heap_grows :: "state \<Rightarrow> state \<Rightarrow> bool" where
  "heap_grows s s' =
     (length (heap s) \<le> length (heap s') \<and> take (length (heap s)) (heap s') = heap s)"

text \<open>A property of states that a step does not destroy.\<close>

definition keeps :: "(state \<Rightarrow> bool) \<Rightarrow> state \<Rightarrow> state \<Rightarrow> bool" where
  "keeps P s s' = (P s \<longrightarrow> P s')"

text \<open>The writes of the monitor's asynchronous functions: a status request is
  sent, a task is constructed and registered, a status is stored in a task, an
  event is emitted. A relation between states is a frame of the monitor when it
  is reflexive and transitive and relates the state before each of these writes
  to the state after it.\<close>

definition monitor_frame :: "(state \<Rightarrow> state \<Rightarrow> bool) \<Rightarrow> bool" where
  "monitor_frame R =
     (reflp R \<and> transp R
      \<and> (\<forall>s g. R s (sent (TellStatus g) s))
      \<and> (\<forall>s g st parent. R s (snd (getTask_construct g st parent s)))
      \<and> (\<forall>s r st. R s (set_status r st s))
      \<and> (\<forall>s key r. R s (emit key r s)))"

text \<open>A pending or settled call of \<^verbatim>\<open>getTask(g)\<close> that has sent its status
  request and, if it has returned, has returned the registry entry of \<open>g\<close>.\<close>

definition in_flight :: "server \<Rightarrow> nat \<Rightarrow> string \<Rightarrow> state \<Rightarrow> nat proc \<Rightarrow> bool" where
  "in_flight E n g s p =
     ((\<exists>k. p = Yield (getTask_resumed (getTask n E) g (srv_tellStatus E k g)))
      \<or> (\<exists>r. p = Ret r \<and> task_map s g = Some r)
      \<or> (\<exists>e. p = Fail e))"

text \<open>What the polling loop does with one status of the multicall answer when the
  gid of the status has a registry entry: the status and the time are stored in
  the entry and the progress event of the gid is emitted with it.\<close>

definition poll_update :: "status \<Rightarrow> state \<Rightarrow> state" where
  "poll_update st s =
     (case task_map s (gid_of st) of
        None \<Rightarrow> s
      | Some r \<Rightarrow> emit (''progress:'' @ gid_of st) r (set_status r st s))"

definition same_emitted :: "state \<Rightarrow> state \<Rightarrow> bool" where
  "same_emitted s s' = (emitted s' = emitted s)"






text \<open>One call among other activity. Before each segment of the call the rest of
  the program has changed the state: \<open>run_among\<close> takes the list of these
  changes, one for each segment, and \<open>relies R\<close> says that each change, made to
  the state in which it happens, is within \<open>R\<close>.\<close>

fun run_among :: "(state \<Rightarrow> state) list \<Rightarrow> 'a proc \<times> state \<Rightarrow> ((error + 'a) \<times> state) option" where
  "run_among envs (Ret v, s) = Some (Inr v, s)"
| "run_among envs (Fail e, s) = Some (Inl e, s)"
| "run_among envs (Diverge, s) = None"
| "run_among [] (Yield f, s) = None"
| "run_among (env # envs) (Yield f, s) = run_among envs (f (env s))"



text \<open>What the segments of the background calls leave alone: the subscriptions and
  timers, and the record of the rejections that nobody handles, which only
  the runtime writes.\<close>

definition background_frame :: "state \<Rightarrow> state \<Rightarrow> bool" where
  "background_frame s s' = (same_subscriptions s s' \<and> unhandled s' = unhandled s)"

section \<open>Example servers\<close>

text \<open>A server that rejects every request.\<close>

definition failing_server :: server where
  "failing_server =
     \<lparr>srv_tellStatus = (\<lambda>k g. Inl (RpcError ''not found'')),
      srv_multicall = (\<lambda>k ids. Inl (RpcError ''not found'')),
      srv_tellActive = (\<lambda>k. Inl (RpcError ''not found'')),
      srv_addUri = (\<lambda>k uris. Inl (RpcError ''not found''))\<rparr>"

text \<open>A server on which \<^verbatim>\<open>t1\<close> is a torrent that follows the download \<^verbatim>\<open>t0\<close>;
  every other gid is a plain download.\<close>

definition torrent_server :: server where
  "torrent_server =
     \<lparr>srv_tellStatus = (\<lambda>k g.
        if g = ''t1''
        then Inr \<lparr>gid = Some ''t1'', following = Some ''t0'',
                  bittorrent = Some \<lparr>info_name = Some ''file''\<rparr>\<rparr>
        else Inr \<lparr>gid = Some g, following = None, bittorrent = None\<rparr>),
      srv_multicall = (\<lambda>k ids. Inr (map (\<lambda>g. \<lparr>gid = Some g, following = None, bittorrent = None\<rparr>) ids)),
      srv_tellActive = (\<lambda>k. Inr []),
      srv_addUri = (\<lambda>k uris. Inr ''t0'')\<rparr>"

text \<open>A monitor that tracks the downloads \<^verbatim>\<open>a\<close> and \<^verbatim>\<open>b\<close>, at time 5.\<close>

definition two_tasks :: state where
  "two_tasks =
     new_monitor
       \<lparr>task_map := [''a'' \<mapsto> 0, ''b'' \<mapsto> 1],
        heap := [\<lparr>task_class = Task, task_gid = ''a'', task_status = None, task_timestamp = None\<rparr>,
                 \<lparr>task_class = Task, task_gid = ''b'', task_status = None, task_timestamp = None\<rparr>],
        clock := 5\<rparr>"



section \<open>Running and awaiting\<close>

lemma run_mono: "run k c = Some r \<Longrightarrow> run (k + j) c = Some r"
proof (induction k c rule: run.induct)
  case (4 f s)
  then show ?case by simp
qed simp_all

lemma run_le: "run k c = Some r \<Longrightarrow> k \<le> k' \<Longrightarrow> run k' c = Some r"
  using run_mono [of k c r "k' - k"] by simp

lemma run_await_cases:
  "run k (await p c, s) = Some (res, s') \<Longrightarrow>
     (\<exists>k1 k2 v s1. k1 + k2 < k \<and> run k1 (p, s) = Some (Inr v, s1) \<and> run k2 (c v s1) = Some (res, s'))
   \<or> (\<exists>k1 e. k1 < k \<and> run k1 (p, s) = Some (Inl e, s') \<and> res = Inl e)"
proof (induction k arbitrary: p s)
  case 0
  then show ?case by (cases p) simp_all
next
  case (Suc k)
  show ?case
  proof (cases p)
    case (Ret v)
    with Suc.prems have "run k (c v s) = Some (res, s')" by simp
    then have "0 + k < Suc k \<and> run 0 (p, s) = Some (Inr v, s) \<and> run k (c v s) = Some (res, s')"
      using Ret by simp
    then show ?thesis by blast
  next
    case (Fail e)
    with Suc.prems have "res = Inl e \<and> s' = s" by (cases k) auto
    then show ?thesis using Fail by auto
  next
    case Diverge
    with Suc.prems show ?thesis by simp
  next
    case (Yield f)
    obtain p1 s1 where f: "f s = (p1, s1)" by (cases "f s")
    with Suc.prems Yield have "run k (await p1 c, s1) = Some (res, s')" by simp
    from Suc.IH [OF this] show ?thesis
    proof
      assume "\<exists>k1 k2 v s2. k1 + k2 < k \<and> run k1 (p1, s1) = Some (Inr v, s2) \<and> run k2 (c v s2) = Some (res, s')"
      then obtain k1 k2 v s2 where "k1 + k2 < k" "run k1 (p1, s1) = Some (Inr v, s2)"
        "run k2 (c v s2) = Some (res, s')" by blast
      then have "Suc k1 + k2 < Suc k \<and> run (Suc k1) (p, s) = Some (Inr v, s2) \<and> run k2 (c v s2) = Some (res, s')"
        using Yield f by simp
      then show ?thesis by blast
    next
      assume "\<exists>k1 e. k1 < k \<and> run k1 (p1, s1) = Some (Inl e, s') \<and> res = Inl e"
      then obtain k1 e where "k1 < k" "run k1 (p1, s1) = Some (Inl e, s')" "res = Inl e" by blast
      then have "Suc k1 < Suc k \<and> run (Suc k1) (p, s) = Some (Inl e, s') \<and> res = Inl e"
        using Yield f by simp
      then show ?thesis by blast
    qed
  qed
qed

lemma run_await_Inr:
  "run k1 (p, s) = Some (Inr v, s1) \<Longrightarrow> run k2 (c v s1) = Some r \<Longrightarrow>
   run (Suc (k1 + k2)) (await p c, s) = Some r"
proof (induction k1 "(p, s)" arbitrary: p s rule: run.induct)
  case (1 n v s)
  then show ?case using run_le [of k2 "c v s1" r "n + k2"] by simp
next
  case (5 n f s)
  then show ?case by (cases "f s") simp
qed simp_all

lemma run_await_Inl:
  "run k1 (p, s) = Some (Inl e, s1) \<Longrightarrow> run (Suc (Suc k1)) (await p c, s) = Some (Inl e, s1)"
proof (induction k1 "(p, s)" arbitrary: p s rule: run.induct)
  case (5 n f s)
  then show ?case by (cases "f s") simp
qed simp_all

lemma steps_in_await:
  assumes "steps_in R p" and "reflp R" and "\<And>v. call_in R (k v)"
  shows "steps_in R (await p k)"
  using assms(1)
proof (induction rule: steps_in.induct)
  case (steps_in_Ret v)
  show ?case using assms(3) by (auto simp: call_in_def intro: steps_in.intros)
next
  case (steps_in_Fail e)
  show ?case by (simp, rule steps_in.intros) (simp_all add: reflpD [OF assms(2)] steps_in.intros)
next
  case steps_in_Diverge
  show ?case by (auto intro: steps_in.intros)
next
  case (steps_in_Yield f)
  show ?case by (simp, rule steps_in.intros) (simp_all add: steps_in_Yield)
qed

lemma run_steps_in:
  assumes "reflp R" and "transp R"
  shows "steps_in R p \<Longrightarrow> run k (p, s) = Some (res, s') \<Longrightarrow> R s s'"
proof (induction k arbitrary: p s)
  case 0
  then show ?case using reflpD [OF assms(1)] by (cases p) auto
next
  case (Suc k)
  show ?case
  proof (cases p)
    case (Yield f)
    obtain p1 s1 where f: "f s = (p1, s1)" by (cases "f s")
    from Suc.prems(1) Yield have a: "R s (snd (f s))" and b: "steps_in R (fst (f s))"
      by (auto elim: steps_in.cases)
    have "run k (p1, s1) = Some (res, s')" using Suc.prems(2) Yield f by simp
    from Suc.IH [OF _ this] b f have "R s1 s'" by simp
    then show ?thesis using a f transpD [OF assms(2)] by auto
  qed (use Suc.prems reflpD [OF assms(1)] in auto)
qed

lemma call_in_run:
  assumes "reflp R" and "transp R"
    and "call_in R c" and "run k (c s) = Some (res, s')"
  shows "R s s'"
proof -
  obtain p s1 where c: "c s = (p, s1)" by (cases "c s")
  with assms(3) have "R s s1" "steps_in R p" by (auto simp: call_in_def dest: spec [of _ s])
  moreover have "run k (p, s1) = Some (res, s')" using assms(4) c by simp
  ultimately have "R s1 s'" using run_steps_in [OF assms(1,2)] by blast
  with \<open>R s s1\<close> transpD [OF assms(2)] show ?thesis by blast
qed

section \<open>Failure of the status query\<close>

text \<open>
  C5. When \<^verbatim>\<open>getTask\<close> is called for a gid without registry entry and the server
  rejects the status query with \<open>e\<close>, the call is rejected with \<open>e\<close>. Run on its
  own, it leaves the state as it was except for the request it has sent, so no
  entry is inserted and none is modified. The same holds when other calls run in
  between: the synchronous part only sends the request, and the resumption
  rejects with \<open>e\<close> and leaves whatever state it finds untouched.
\<close>

theorem getTask_query_failure:
  assumes "task_map s g = None" and "conn_open s"
    and "srv_tellStatus E (length (rpc_log s)) g = Inl e"
  shows "run (Suc k) (getTask (Suc n) E g s) =
           Some (Inl e, sent (TellStatus g) s)
         \<and> (\<exists>K. getTask (Suc n) E g s = (Yield K, sent (TellStatus g) s)
                \<and> (\<forall>s'. K s' = (Fail e, s')))"
  using assms by (simp add: tellStatus_def getTask_resumed_def)

theorem getTask_query_failure_witness:
  "task_map new_monitor ''a'' = None \<and> conn_open new_monitor
   \<and> srv_tellStatus failing_server (length (rpc_log new_monitor)) ''a'' = Inl (RpcError ''not found'')
   \<and> run 1 (getTask 1 failing_server ''a'' new_monitor) =
           Some (Inl (RpcError ''not found''), new_monitor\<lparr>rpc_log := [TellStatus ''a'']\<rparr>)"
  using getTask_query_failure [of new_monitor "''a''" failing_server "RpcError ''not found''" 0 0]
  by (simp add: new_monitor_def failing_server_def sent_def)

section \<open>Frame conditions of getTask\<close>

lemma call_in_getTask_construct:
  assumes "\<And>g st p s. R s (snd (getTask_construct g st p s))"
  shows "call_in R (getTask_construct g st p)"
  using assms by (auto simp: call_in_def getTask_construct_def new_task_def intro: steps_in.intros split: prod.splits)

lemma call_inD: "call_in R c \<Longrightarrow> c s = (p, s1) \<Longrightarrow> R s s1 \<and> steps_in R p"
  unfolding call_in_def by (metis fst_conv snd_conv)

lemma call_inI: "(\<And>s. R s (snd (c s))) \<Longrightarrow> (\<And>s. steps_in R (fst (c s))) \<Longrightarrow> call_in R c"
  unfolding call_in_def by blast

lemma call_in_getTask_resumed:
  assumes "reflp R"
    and "\<And>g st p s. R s (snd (getTask_construct g st p s))"
    and "\<And>f. call_in R (rec f)"
  shows "call_in R (getTask_resumed rec g resp)"
proof -
  have c: "call_in R (getTask_construct g st p)" for st p
    using call_in_getTask_construct [where R = R] assms(2) by blast
  have "R s (snd (getTask_resumed rec g resp s)) \<and> steps_in R (fst (getTask_resumed rec g resp s))" for s
  proof (cases resp)
    case (Inl e)
    then show ?thesis using reflpD [OF assms(1)] by (simp add: getTask_resumed_def steps_in.intros)
  next
    case (Inr st)
    show ?thesis
    proof (cases "task_map s g")
      case (Some r)
      then show ?thesis using Inr reflpD [OF assms(1)] by (simp add: getTask_resumed_def steps_in.intros)
    next
      case None
      have direct: "getTask_resumed rec g resp s = getTask_construct g st None s \<Longrightarrow> ?thesis"
        using c [of st None] by (simp add: call_in_def)
      show ?thesis
      proof (cases "following st")
        case None
        then show ?thesis using direct \<open>task_map s g = None\<close> Inr by (simp add: getTask_resumed_def)
      next
        case (Some f)
        show ?thesis
        proof (cases "f = []")
          case True
          then show ?thesis using direct \<open>task_map s g = None\<close> Inr Some by (simp add: getTask_resumed_def)
        next
          case False
          obtain p s1 where r: "rec f s = (p, s1)" by (cases "rec f s")
          from call_inD [OF assms(3) r] have "R s s1" "steps_in R p" by simp_all
          moreover have "steps_in R (await p (\<lambda>parent. getTask_construct g st (Some parent)))"
            by (rule steps_in_await [OF \<open>steps_in R p\<close> assms(1)]) (rule c)
          ultimately show ?thesis using Inr \<open>task_map s g = None\<close> Some False r
            by (simp add: getTask_resumed_def)
        qed
      qed
    qed
  qed
  then show ?thesis by (simp add: call_in_def)
qed


lemma call_in_getTask:
  assumes "reflp R"
    and "\<And>s g. R s (sent (TellStatus g) s)"
    and "\<And>g st p s. R s (snd (getTask_construct g st p s))"
  shows "call_in R (getTask n E g)"
proof (induction n arbitrary: g)
  case 0
  show ?case using reflpD [OF assms(1)] by (simp add: call_in_def steps_in.intros)
next
  case (Suc n)
  have res: "call_in R (getTask_resumed (getTask n E) g resp)" for resp
    by (rule call_in_getTask_resumed [OF assms(1) assms(3)]) (rule Suc)
  have y: "steps_in R (Yield (getTask_resumed (getTask n E) g resp))" for resp
    using res [of resp] by (intro steps_in_Yield) (simp_all add: call_in_def)
  have "R s (snd (getTask (Suc n) E g s)) \<and> steps_in R (fst (getTask (Suc n) E g s))" for s
  proof (cases "task_map s g")
    case (Some r)
    then show ?thesis using reflpD [OF assms(1)] by (simp add: steps_in.intros)
  next
    case None
    show ?thesis
    proof (cases "conn_open s")
      case False
      then show ?thesis using None reflpD [OF assms(1)] by (simp add: steps_in.intros)
    next
      case True
      then show ?thesis using None y assms(2) [of s g] by (simp add: tellStatus_def)
    qed
  qed
  then show ?case by (simp add: call_in_def)
qed

section \<open>Unfolding getTask\<close>

lemma getTask_construct_eq:
  "getTask_construct g st parent s =
     (Ret (length (heap s)),
      s\<lparr>heap := heap s @
             [\<lparr>task_class = (if bittorrent st \<noteq> None then Torrent parent else Task),
               task_gid = g, task_status = Some st, task_timestamp = Some (clock s)\<rparr>],
        task_map := (task_map s)(g \<mapsto> length (heap s))\<rparr>)"
  by (cases s) (simp add: getTask_construct_def new_task_def set_status_def)

lemma fst_getTask_construct: "fst (getTask_construct g st parent s) = Ret (length (heap s))"
  by (simp add: getTask_construct_eq)

lemma run_getTask_construct:
  "run k (getTask_construct g st parent s) = Some (res, s') \<longleftrightarrow>
     res = Inr (length (heap s)) \<and> s' = snd (getTask_construct g st parent s)"
proof -
  have "getTask_construct g st parent s = (Ret (length (heap s)), snd (getTask_construct g st parent s))"
    using fst_getTask_construct [of g st parent s] by (cases "getTask_construct g st parent s") simp
  then have "run k (getTask_construct g st parent s) =
               Some (Inr (length (heap s)), snd (getTask_construct g st parent s))"
    by (metis run.simps(1))
  then show ?thesis by (metis option.inject prod.inject)
qed

lemma task_map_sent [simp]: "task_map (sent q s) = task_map s"
  by (simp add: sent_def)

lemma getTask_Suc_absent:
  "task_map s g = None \<Longrightarrow> conn_open s \<Longrightarrow>
   getTask (Suc m) E g s =
     (Yield (getTask_resumed (getTask m E) g (srv_tellStatus E (length (rpc_log s)) g)),
      sent (TellStatus g) s)"
  by (simp add: tellStatus_def)

lemma getTask_Suc_closed:
  "task_map s g = None \<Longrightarrow> \<not> conn_open s \<Longrightarrow> getTask (Suc m) E g s = (Fail ConnectionClosed, s)"
  by simp

lemma getTask_Suc_present:
  "task_map s g = Some r \<Longrightarrow> getTask (Suc m) E g s = (Ret r, s)"
  by simp

lemma getTask_resumed_Inl: "getTask_resumed rec g (Inl e) s = (Fail e, s)"
  by (simp add: getTask_resumed_def)

lemma getTask_resumed_present:
  "task_map s g = Some r \<Longrightarrow> getTask_resumed rec g (Inr st) s = (Ret r, s)"
  by (simp add: getTask_resumed_def)

lemma getTask_resumed_plain:
  "task_map s g = None \<Longrightarrow> \<not> truthy (following st) \<Longrightarrow>
   getTask_resumed rec g (Inr st) s = getTask_construct g st None s"
  by (auto simp: getTask_resumed_def truthy_def split: option.splits)

lemma getTask_resumed_following:
  "task_map s g = None \<Longrightarrow> following st = Some f \<Longrightarrow> f \<noteq> [] \<Longrightarrow>
   getTask_resumed rec g (Inr st) s =
     (await (fst (rec f s)) (\<lambda>parent. getTask_construct g st (Some parent)), snd (rec f s))"
  by (simp add: getTask_resumed_def split: prod.splits)


lemma run_Fail: "run k (Fail e, s) = Some (res, s') \<longleftrightarrow> res = Inl e \<and> s' = s"
  by (simp add: eq_commute [of s'] eq_commute [of res])

lemma run_Ret: "run k (Ret v, s) = Some (res, s') \<longleftrightarrow> res = Inr v \<and> s' = s"
  by (simp add: eq_commute [of s'] eq_commute [of res])

lemma run_Yield: "run k (Yield f, s) = Some r \<Longrightarrow> \<exists>k'. k = Suc k' \<and> run k' (f s) = Some r"
  by (cases k) simp_all

lemma run_getTask_absent:
  assumes "task_map s g = None" and "run k (getTask n E g s) = Some (res, s')"
  obtains
    (closed) "\<not> conn_open s" "res = Inl ConnectionClosed" "s' = s"
  | (rejected) e where "conn_open s" "srv_tellStatus E (length (rpc_log s)) g = Inl e"
      "res = Inl e" "s' = sent (TellStatus g) s"
  | (plain) st where "conn_open s" "srv_tellStatus E (length (rpc_log s)) g = Inr st"
      "\<not> truthy (following st)"
      "res = Inr (length (heap s))"
      "s' = snd (getTask_construct g st None (sent (TellStatus g) s))"
  | (followed) st f m k1 v s3 where "conn_open s" "srv_tellStatus E (length (rpc_log s)) g = Inr st"
      "following st = Some f" "f \<noteq> []" "n = Suc m"
      "run k1 (getTask m E f (sent (TellStatus g) s)) = Some (Inr v, s3)"
      "res = Inr (length (heap s3))"
      "s' = snd (getTask_construct g st (Some v) s3)"
  | (parent_failed) st f m k1 e where "conn_open s" "srv_tellStatus E (length (rpc_log s)) g = Inr st"
      "following st = Some f" "f \<noteq> []" "n = Suc m"
      "run k1 (getTask m E f (sent (TellStatus g) s)) = Some (Inl e, s')"
      "res = Inl e"
proof -
  have "n \<noteq> 0"
  proof
    assume "n = 0"
    then have "run k (getTask n E g s) = None" by simp
    with assms(2) show False by simp
  qed
  then obtain m where n: "n = Suc m" using not0_implies_Suc by blast
  define s1 where "s1 = sent (TellStatus g) s"
  have m1: "task_map s1 g = None" using assms(1) by (simp add: s1_def)
  show thesis
  proof (cases "conn_open s")
    case False
    have "run k (Fail ConnectionClosed, s) = Some (res, s')"
      using assms(2) unfolding n getTask_Suc_closed [OF assms(1) False] .
    then show ?thesis using closed False unfolding run_Fail by blast
  next
    case True
    define resp where "resp = srv_tellStatus E (length (rpc_log s)) g"
    have "run k (Yield (getTask_resumed (getTask m E) g resp), s1) = Some (res, s')"
      using assms(2) unfolding n getTask_Suc_absent [OF assms(1) True] resp_def s1_def .
    then obtain k' where r: "run k' (getTask_resumed (getTask m E) g resp s1) = Some (res, s')"
      using run_Yield by blast
    show ?thesis
    proof (cases resp)
      case (Inl e)
      then have "run k' (Fail e, s1) = Some (res, s')" using r by (simp add: getTask_resumed_Inl)
      then have "res = Inl e" "s' = s1" unfolding run_Fail by blast+
      then show ?thesis using rejected [of e] True Inl unfolding resp_def s1_def by blast
    next
      case (Inr st)
      show ?thesis
      proof (cases "truthy (following st)")
        case False
        have "run k' (getTask_construct g st None s1) = Some (res, s')"
          using r Inr getTask_resumed_plain [OF m1 False] by simp
        then have "res = Inr (length (heap s1))" "s' = snd (getTask_construct g st None s1)"
          unfolding run_getTask_construct by blast+
        moreover have "heap s1 = heap s" by (simp add: s1_def sent_def)
        ultimately show ?thesis using plain [of st] True Inr False unfolding resp_def s1_def by metis
      next
        case t: True
        then obtain f where f: "following st = Some f" "f \<noteq> []"
          by (auto simp: truthy_def split: option.splits)
        obtain p s2 where c: "getTask m E f s1 = (p, s2)" by (cases "getTask m E f s1")
        have "run k' (await p (\<lambda>parent. getTask_construct g st (Some parent)), s2) = Some (res, s')"
          using r Inr getTask_resumed_following [OF m1 f, of "getTask m E"] c by simp
        from run_await_cases [OF this] show ?thesis
        proof (elim disjE exE conjE)
          fix k1 k2 v s3
          assume a: "run k1 (p, s2) = Some (Inr v, s3)"
            and b: "run k2 (getTask_construct g st (Some v) s3) = Some (res, s')"
          from b have "res = Inr (length (heap s3))" "s' = snd (getTask_construct g st (Some v) s3)"
            unfolding run_getTask_construct by blast+
          moreover have "run k1 (getTask m E f s1) = Some (Inr v, s3)" using a c by simp
          ultimately show ?thesis using followed [of st f m k1 v s3] True Inr f n
            unfolding resp_def s1_def by blast
        next
          fix k1 e
          assume "run k1 (p, s2) = Some (Inl e, s')" "res = Inl e"
          moreover from this have "run k1 (getTask m E f s1) = Some (Inl e, s')" using c by simp
          ultimately show ?thesis using parent_failed [of st f m k1 e] True Inr f n
            unfolding resp_def s1_def by blast
        qed
      qed
    qed
  qed
qed

section \<open>The result of getTask\<close>

lemma reflp_heap_grows: "reflp heap_grows"
  by (simp add: reflp_def heap_grows_def)

lemma transp_heap_grows: "transp heap_grows"
proof (rule transpI)
  fix a b c
  assume ab: "heap_grows a b" and bc: "heap_grows b c"
  have le: "length (heap a) \<le> length (heap b)" "length (heap b) \<le> length (heap c)"
    using ab bc by (simp_all add: heap_grows_def)
  have "take (length (heap a)) (heap c) = take (length (heap a)) (take (length (heap b)) (heap c))"
    using le by (simp add: min_def)
  also have "\<dots> = take (length (heap a)) (heap b)" using bc by (simp only: heap_grows_def)
  also have "\<dots> = heap a" using ab by (simp only: heap_grows_def)
  finally show "heap_grows a c" using le by (simp add: heap_grows_def)
qed

lemma heap_sent [simp]: "heap (sent q s) = heap s"
  by (simp add: sent_def)

lemma heap_getTask_construct:
  "heap (snd (getTask_construct g st parent s)) =
     heap s @ [\<lparr>task_class = (if bittorrent st \<noteq> None then Torrent parent else Task),
                task_gid = g, task_status = Some st, task_timestamp = Some (clock s)\<rparr>]"
  by (simp add: getTask_construct_eq)

lemma task_map_getTask_construct:
  "task_map (snd (getTask_construct g st parent s)) = (task_map s)(g \<mapsto> length (heap s))"
  by (simp add: getTask_construct_eq)

lemma heap_grows_getTask: "call_in heap_grows (getTask n E g)"
  by (rule call_in_getTask [OF reflp_heap_grows])
     (simp_all add: heap_grows_def heap_getTask_construct)

lemma run_getTask_heap_grows:
  "run k (getTask n E g s) = Some (res, s') \<Longrightarrow> heap_grows s s'"
  by (rule call_in_run [OF reflp_heap_grows transp_heap_grows heap_grows_getTask])

lemma getTask_result_present:
  assumes "run k (getTask n E g s) = Some (res, s')" and "task_map s g = Some r0"
  shows "res = Inr r0 \<and> s' = s"
proof -
  have "n \<noteq> 0"
  proof
    assume "n = 0"
    then have "run k (getTask n E g s) = None" by simp
    with assms(1) show False by simp
  qed
  then obtain m where n: "n = Suc m" using not0_implies_Suc by blast
  have "run k (Ret r0, s) = Some (res, s')"
    using assms(1) unfolding n getTask_Suc_present [OF assms(2)] .
  then show ?thesis unfolding run_Ret .
qed

lemma getTask_result_absent:
  assumes "run k (getTask n E g s) = Some (Inr r, s')" and "task_map s g = None"
  shows "\<exists>st parent s3.
           srv_tellStatus E (length (rpc_log s)) g = Inr st
         \<and> heap_grows s s3 \<and> r = length (heap s3)
         \<and> s' = snd (getTask_construct g st parent s3)"
  using assms(2) assms(1)
proof (cases rule: run_getTask_absent)
  case (plain st)
  have "heap_grows s (sent (TellStatus g) s)" by (simp add: heap_grows_def)
  moreover have "r = length (heap (sent (TellStatus g) s))" using plain(4) by simp
  ultimately show ?thesis using plain(2,5) by blast
next
  case (followed st f m k1 v s3)
  have "heap_grows (sent (TellStatus g) s) s3" using run_getTask_heap_grows [OF followed(6)] .
  then have "heap_grows s s3" by (simp add: heap_grows_def)
  moreover have "r = length (heap s3)" using followed(7) by simp
  ultimately show ?thesis using followed(2,8) by blast
qed simp_all

lemma getTask_registers:
  assumes "run k (getTask n E g s) = Some (Inr r, s')"
  shows "task_map s' g = Some r"
proof (cases "task_map s g")
  case None
  from getTask_result_absent [OF assms None] show ?thesis
    by (auto simp: task_map_getTask_construct)
next
  case (Some r0)
  from getTask_result_present [OF assms Some] show ?thesis using Some by simp
qed

section \<open>Construction of a registry entry\<close>

text \<open>
  C4. Let \<^verbatim>\<open>getTask(gid)\<close> be called for a gid without registry entry and return
  the instance \<open>r\<close>. Then the status query was answered with a status \<open>st\<close>, and
  \<open>r\<close> is in the registry under the gid when the call returns; it carries the gid
  and the status \<open>st\<close>. Without bittorrent metadata in \<open>st\<close> it is a plain task.
  With metadata it is a torrent: without parent when \<open>st\<close> has no following gid,
  and otherwise with the parent \<open>p\<close> that the recursive \<^verbatim>\<open>getTask(following)\<close>
  returned. This \<open>p\<close> is the registry entry of the following gid (so a later
  \<^verbatim>\<open>getTask(following)\<close> returns the identical instance); when the following gid
  had an entry before the call, \<open>p\<close> is that entry, and when it had none, \<open>p\<close> was
  constructed during the call, before \<open>r\<close>.
\<close>

theorem getTask_constructs_entry:
  assumes "task_map s g = None" and "run k (getTask n E g s) = Some (Inr r, s')"
  shows "\<exists>st. srv_tellStatus E (length (rpc_log s)) g = Inr st
       \<and> task_map s' g = Some r \<and> r < length (heap s')
       \<and> task_gid (heap s' ! r) = g \<and> task_status (heap s' ! r) = Some st
       \<and> (bittorrent st = None \<longrightarrow> task_class (heap s' ! r) = Task)
       \<and> (bittorrent st \<noteq> None \<longrightarrow> \<not> truthy (following st) \<longrightarrow>
            task_class (heap s' ! r) = Torrent None)
       \<and> (bittorrent st \<noteq> None \<longrightarrow> truthy (following st) \<longrightarrow>
            (\<exists>p f. following st = Some f \<and> task_class (heap s' ! r) = Torrent (Some p)
               \<and> (f \<noteq> g \<longrightarrow> task_map s' f = Some p)
               \<and> (task_map s f = None \<longrightarrow>
                     length (heap s) \<le> p \<and> p < r \<and> task_gid (heap s' ! p) = f)
               \<and> (\<forall>p0. task_map s f = Some p0 \<longrightarrow> p = p0)))"
  using assms
proof (cases rule: run_getTask_absent)
  case (plain st)
  define s1 where "s1 = sent (TellStatus g) s"
  have r: "r = length (heap s1)" using plain(4) by (simp add: s1_def)
  have h: "heap s' = heap s1 @ [\<lparr>task_class = (if bittorrent st \<noteq> None then Torrent None else Task),
                task_gid = g, task_status = Some st, task_timestamp = Some (clock s1)\<rparr>]"
    and m: "task_map s' = (task_map s1)(g \<mapsto> length (heap s1))"
    using plain(5) by (simp_all add: s1_def heap_getTask_construct task_map_getTask_construct)
  show ?thesis
    by (rule exI [of _ st]) (use plain(2,3) r h m in auto)
next
  case (followed st f m k1 v s3)
  define s1 where "s1 = sent (TellStatus g) s"
  have inner: "run k1 (getTask m E f s1) = Some (Inr v, s3)" using followed(6) by (simp add: s1_def)
  have r: "r = length (heap s3)" using followed(7) by simp
  have h: "heap s' = heap s3 @ [\<lparr>task_class = (if bittorrent st \<noteq> None then Torrent (Some v) else Task),
                task_gid = g, task_status = Some st, task_timestamp = Some (clock s3)\<rparr>]"
    and mp: "task_map s' = (task_map s3)(g \<mapsto> length (heap s3))"
    using followed(8) by (simp_all add: heap_getTask_construct task_map_getTask_construct)
  have reg: "task_map s3 f = Some v" using getTask_registers [OF inner] .
  have present: "task_map s f = Some p0 \<Longrightarrow> v = p0" for p0
    using getTask_result_present [OF inner, of p0] by (simp add: s1_def)
  have absent: "length (heap s) \<le> v \<and> v < r \<and> task_gid (heap s' ! v) = f" if "task_map s f = None"
  proof -
    have "task_map s1 f = None" using that by (simp add: s1_def)
    from getTask_result_absent [OF inner this] obtain st' parent s2 where
      g: "heap_grows s1 s2" and v: "v = length (heap s2)"
      and s3: "s3 = snd (getTask_construct f st' parent s2)" by blast
    have "heap s3 = heap s2 @ [\<lparr>task_class = (if bittorrent st' \<noteq> None then Torrent parent else Task),
                task_gid = f, task_status = Some st', task_timestamp = Some (clock s2)\<rparr>]"
      using s3 by (simp add: heap_getTask_construct)
    then show ?thesis using g v r h by (simp add: heap_grows_def s1_def nth_append)
  qed
  have tr: "truthy (following st)" using followed(3,4) by (simp add: truthy_def)
  show ?thesis
    apply (rule exI [of _ st])
    apply (intro conjI)
    using followed(2) apply simp
    using mp r apply simp
    using h r apply simp
    using h r apply simp
    using h r apply simp
    using h r apply simp
    using tr apply simp
    apply (intro impI)
    apply (rule exI [of _ v])
    apply (rule exI [of _ f])
    using followed(3) h r mp reg present absent apply auto
    done
qed simp_all


lemma run_torrent_example:
  "\<exists>s'. run 3 (getTask 2 torrent_server ''t1'' new_monitor) = Some (Inr 1, s')"
  by (simp add: eval_nat_numeral torrent_server_def new_monitor_def tellStatus_def sent_def
        getTask_resumed_def getTask_construct_def new_task_def set_status_def)

theorem getTask_constructs_entry_witness:
  "task_map new_monitor ''t1'' = None
   \<and> (\<exists>s'. run 3 (getTask 2 torrent_server ''t1'' new_monitor) = Some (Inr 1, s')
          \<and> task_map s' ''t1'' = Some 1 \<and> task_gid (heap s' ! 1) = ''t1''
          \<and> task_class (heap s' ! 1) = Torrent (Some 0)
          \<and> task_map s' ''t0'' = Some 0 \<and> task_gid (heap s' ! 0) = ''t0'')"
proof -
  have a: "task_map new_monitor ''t1'' = None" by (simp add: new_monitor_def)
  obtain s' where r: "run 3 (getTask 2 torrent_server ''t1'' new_monitor) = Some (Inr 1, s')"
    using run_torrent_example by blast
  have st: "srv_tellStatus torrent_server (length (rpc_log new_monitor)) ''t1'' =
      Inr \<lparr>gid = Some ''t1'', following = Some ''t0'',
           bittorrent = Some \<lparr>info_name = Some ''file''\<rparr>\<rparr>"
    by (simp add: torrent_server_def)
  have e: "task_map new_monitor ''t0'' = None" "length (heap new_monitor) = 0"
    by (simp_all add: new_monitor_def)
  from getTask_constructs_entry [OF a r] st e
  have "task_map s' ''t1'' = Some 1 \<and> task_gid (heap s' ! 1) = ''t1''
          \<and> task_class (heap s' ! 1) = Torrent (Some 0)
          \<and> task_map s' ''t0'' = Some 0 \<and> task_gid (heap s' ! 0) = ''t0''"
    by (auto simp: truthy_def)
  with a r show ?thesis by blast
qed

section \<open>Well-formedness of the registry\<close>

lemma reflp_keeps: "reflp (keeps P)"
  by (simp add: reflp_def keeps_def)

lemma transp_keeps: "transp (keeps P)"
  by (rule transpI) (simp add: keeps_def)

lemma registry_ok_sent [simp]: "registry_ok (sent q s) = registry_ok s"
  by (simp add: registry_ok_def sent_def)

lemma registry_ok_getTask_construct:
  assumes "registry_ok s"
  shows "registry_ok (snd (getTask_construct g st parent s))"
  unfolding registry_ok_def
proof (intro allI impI)
  fix g' r
  assume "task_map (snd (getTask_construct g st parent s)) g' = Some r"
  then have r: "(if g' = g then Some (length (heap s)) else task_map s g') = Some r"
    by (simp add: task_map_getTask_construct)
  show "r < length (heap (snd (getTask_construct g st parent s)))
        \<and> task_gid (heap (snd (getTask_construct g st parent s)) ! r) = g'"
  proof (cases "g' = g")
    case True
    then have "r = length (heap s)" using r by simp
    then show ?thesis using True by (simp add: heap_getTask_construct)
  next
    case False
    then have "task_map s g' = Some r" using r by simp
    then have "r < length (heap s) \<and> task_gid (heap s ! r) = g'"
      using assms by (simp add: registry_ok_def)
    then show ?thesis by (simp add: heap_getTask_construct nth_append)
  qed
qed

lemma registry_ok_getTask: "call_in (keeps registry_ok) (getTask n E g)"
  by (rule call_in_getTask [OF reflp_keeps])
     (simp_all add: keeps_def registry_ok_getTask_construct)

lemma run_getTask_registry_ok:
  assumes "run k (getTask n E g s) = Some (res, s')" and "registry_ok s"
  shows "registry_ok s'"
  using call_in_run [OF reflp_keeps transp_keeps registry_ok_getTask assms(1)] assms(2)
  by (simp add: keeps_def)

lemma run_await_Ret:
  assumes "run k (await p (\<lambda>v s. (Ret v, s)), s) = Some (res, s')"
  shows "\<exists>k1. k1 < k \<and> run k1 (p, s) = Some (res, s')"
  using run_await_cases [OF assms]
proof (elim disjE exE conjE)
  fix k1 k2 v s1
  assume a: "k1 + k2 < k" "run k1 (p, s) = Some (Inr v, s1)" "run k2 (Ret v, s1) = Some (res, s')"
  from a(3) have "res = Inr v" "s' = s1" unfolding run_Ret by blast+
  with a(1,2) have "k1 < k \<and> run k1 (p, s) = Some (res, s')" by simp
  then show ?thesis by blast
next
  fix k1 e
  assume "k1 < k" "run k1 (p, s) = Some (Inl e, s')" "res = Inl e"
  then show ?thesis by blast
qed

lemma run_watchStatus:
  assumes "run k (watchStatus n E g s) = Some (res, s')"
  shows "\<exists>k1. k1 < k \<and> run k1 (getTask n E g s) = Some (res, s')"
proof -
  obtain p s1 where c: "getTask n E g s = (p, s1)" by (cases "getTask n E g s")
  then have "run k (await p (\<lambda>v s. (Ret v, s)), s1) = Some (res, s')"
    using assms by (simp add: watchStatus_def)
  from run_await_Ret [OF this] show ?thesis using c by simp
qed

section \<open>Submission of a download\<close>

lemma downloadUri_open:
  "conn_open s \<Longrightarrow>
   downloadUri n E uri s =
     (Yield (\<lambda>s2. case srv_addUri E (length (rpc_log s)) (uris_of uri) of
                     Inl e \<Rightarrow> (Fail e, s2)
                   | Inr g \<Rightarrow>
                       if \<not> conn_open s2 then (Fail ConnectionClosed, s2)
                       else (case watchStatus n E g s2 of
                               (p, s3) \<Rightarrow> (await p (\<lambda>task s4. (Ret task, s4)), s3))),
      sent (AddUri (uris_of uri)) s)"
  by (simp add: downloadUri_def addUri_def Let_def)

lemma downloadUri_closed: "\<not> conn_open s \<Longrightarrow> downloadUri n E uri s = (Fail ConnectionClosed, s)"
  by (simp add: downloadUri_def Let_def)

lemma run_downloadUri:
  assumes "run k (downloadUri n E uri s) = Some (Inr r, s')"
  shows "\<exists>g k1. srv_addUri E (length (rpc_log s)) (uris_of uri) = Inr g
           \<and> run k1 (getTask n E g (sent (AddUri (uris_of uri)) s)) = Some (Inr r, s')"
proof -
  define s1 where "s1 = sent (AddUri (uris_of uri)) s"
  have op: "conn_open s"
  proof (rule ccontr)
    assume c: "\<not> conn_open s"
    have "run k (Fail ConnectionClosed, s) = Some (Inr r, s')"
      using assms unfolding downloadUri_closed [OF c] .
    then show False unfolding run_Fail by simp
  qed
  from assms obtain k' where
    r: "run k' (case srv_addUri E (length (rpc_log s)) (uris_of uri) of
                     Inl e \<Rightarrow> (Fail e, s1)
                   | Inr g \<Rightarrow>
                       if \<not> conn_open s1 then (Fail ConnectionClosed, s1)
                       else (case watchStatus n E g s1 of
                               (p, s3) \<Rightarrow> (await p (\<lambda>task s4. (Ret task, s4)), s3))) = Some (Inr r, s')"
    unfolding downloadUri_open [OF op] s1_def using run_Yield by blast
  show ?thesis
  proof (cases "srv_addUri E (length (rpc_log s)) (uris_of uri)")
    case (Inl e)
    then have "run k' (Fail e, s1) = Some (Inr r, s')" using r by simp
    then show ?thesis unfolding run_Fail by simp
  next
    case (Inr g)
    have op1: "conn_open s1"
    proof (rule ccontr)
      assume "\<not> conn_open s1"
      then have "run k' (Fail ConnectionClosed, s1) = Some (Inr r, s')" using r Inr by simp
      then show False unfolding run_Fail by simp
    qed
    obtain p s3 where w: "watchStatus n E g s1 = (p, s3)" by (cases "watchStatus n E g s1")
    then have "run k' (await p (\<lambda>task s4. (Ret task, s4)), s3) = Some (Inr r, s')"
      using r Inr op1 by simp
    from run_await_Ret [OF this] obtain k1 where "run k1 (watchStatus n E g s1) = Some (Inr r, s')"
      using w by auto
    from run_watchStatus [OF this] show ?thesis using Inr unfolding s1_def by blast
  qed
qed

section \<open>Frames of the asynchronous functions\<close>

lemma monitor_frameD:
  assumes "monitor_frame R"
  shows "reflp R" and "transp R" and "R s s" and "R a b \<Longrightarrow> R b c \<Longrightarrow> R a c"
    and "R s (sent (TellStatus g) s)" and "R s (snd (getTask_construct g st parent s))"
    and "R s (set_status r st s)" and "R s (emit key r s)"
  using assms unfolding monitor_frame_def
  by (blast dest: reflpD transpD)+

lemma frame_getTask: "monitor_frame R \<Longrightarrow> call_in R (getTask n E g)"
  by (rule call_in_getTask) (simp_all add: monitor_frameD)

lemma call_in_await:
  assumes "call_in R c" and "reflp R" and "\<And>v. call_in R (k v)"
  shows "call_in R (\<lambda>s. case c s of (p, s1) \<Rightarrow> (await p k, s1))"
proof (rule call_inI)
  fix s
  obtain p s1 where c: "c s = (p, s1)" by (cases "c s")
  from call_inD [OF assms(1) c] have "R s s1" "steps_in R p" by simp_all
  then show "R s (snd (case c s of (p, s1) \<Rightarrow> (await p k, s1)))"
    and "steps_in R (fst (case c s of (p, s1) \<Rightarrow> (await p k, s1)))"
    using c steps_in_await [OF _ assms(2,3)] by simp_all
qed

lemma call_in_after:
  assumes "call_in R c" and "transp R" and "\<And>s. R s (f s)"
  shows "call_in R (\<lambda>s. c (f s))"
proof (rule call_inI)
  fix s
  obtain p s1 where c: "c (f s) = (p, s1)" by (cases "c (f s)")
  from call_inD [OF assms(1) c] have "R (f s) s1" "steps_in R p" by simp_all
  then show "R s (snd (c (f s)))" and "steps_in R (fst (c (f s)))"
    using c assms(3) [of s] transpD [OF assms(2)] by auto
qed

lemma call_in_Ret: "(\<And>s. R s (f s)) \<Longrightarrow> call_in R (\<lambda>s. (Ret v, f s))"
  by (rule call_inI) (simp_all add: steps_in.intros)

lemma call_in_Fail: "reflp R \<Longrightarrow> call_in R (\<lambda>s. (Fail e, s))"
  by (rule call_inI) (simp_all add: steps_in.intros reflpD)

lemma call_in_Yield:
  assumes "call_in R c" and "\<And>s. R s (f s)"
  shows "call_in R (\<lambda>s. (Yield c, f s))"
  using assms by (intro call_inI) (simp_all add: call_in_def steps_in.intros)

lemma frame_watchStatus: "monitor_frame R \<Longrightarrow> call_in R (watchStatus n E g)"
  unfolding watchStatus_def
  by (rule call_in_await [OF frame_getTask]) (simp_all add: monitor_frameD call_in_Ret)

lemma frame_progress_loop:
  assumes "monitor_frame R"
  shows "call_in R (progress_loop n E sts)"
proof (induction sts)
  case Nil
  have "progress_loop n E [] = (\<lambda>s. (Ret (), s))" by (rule ext) simp
  then show ?case using call_in_Ret [of R "\<lambda>s. s"] monitor_frameD(3) [OF assms] by simp
next
  case (Cons st sts)
  show ?case
  proof (cases "truthy (gid st)")
    case False
    then have "progress_loop n E (st # sts) = progress_loop n E sts" by (rule_tac ext) simp
    then show ?thesis using Cons by simp
  next
    case True
    define g where "g = the (gid st)"
    define k where "k = (\<lambda>fresh task s2. progress_loop n E sts
                  (emit (''progress:'' @ g) task (if \<not> fresh then set_status task st s2 else s2)))"
    have k: "call_in R (k fresh task)" for task fresh
      unfolding k_def
    proof (rule call_in_after [OF Cons monitor_frameD(2) [OF assms]])
      fix s
      show "R s (emit (''progress:'' @ g) task (if \<not> fresh then set_status task st s else s))"
        using monitor_frameD(4) [OF assms, of s "set_status task st s"] monitor_frameD(7,8) [OF assms]
        by auto
    qed
    show ?thesis
    proof (rule call_inI)
      fix s
      obtain p s1 where c: "getTask n E g s = (p, s1)" by (cases "getTask n E g s")
      from call_inD [OF frame_getTask [OF assms] c] have r: "R s s1" and p: "steps_in R p" by simp_all
      have e: "progress_loop n E (st # sts) s = (await p (k (task_map s g = None)), s1)"
        using True c by (simp add: g_def k_def Let_def)
      have "steps_in R (await p (k (task_map s g = None)))"
        by (rule steps_in_await [OF p monitor_frameD(1) [OF assms]]) (rule k)
      then show "R s (snd (progress_loop n E (st # sts) s))"
        and "steps_in R (fst (progress_loop n E (st # sts) s))"
        using r unfolding e by simp_all
    qed
  qed
qed

lemma frame_onDownloadProgress:
  assumes "monitor_frame R" and "\<And>s ids. R s (sent (Multicall ids) s)"
  shows "call_in R (onDownloadProgress n E)"
proof (rule call_inI)
  fix s
  have y: "steps_in R (Yield (\<lambda>s2. case resp of Inl e \<Rightarrow> (Fail e, s2)
                                    | Inr statues \<Rightarrow> progress_loop n E statues s2))" for resp
  proof (cases resp)
    case (Inl e)
    then show ?thesis using monitor_frameD(3) [OF assms(1)]
      by (intro steps_in_Yield) (simp_all add: steps_in.intros)
  next
    case (Inr sts)
    then show ?thesis using frame_progress_loop [OF assms(1), of n E sts]
      by (intro steps_in_Yield) (simp_all add: call_in_def)
  qed
  show "R s (snd (onDownloadProgress n E s))" and "steps_in R (fst (onDownloadProgress n E s))"
    using y monitor_frameD(3) [OF assms(1)] assms(2)
    by (simp_all add: onDownloadProgress_def multicall_def steps_in.intros)
qed

lemma frame_interval_callback:
  assumes "monitor_frame R" and "\<And>s ids. R s (sent (Multicall ids) s)"
  shows "call_in R (interval_callback n E)"
  unfolding interval_callback_def
  by (rule call_in_await [OF frame_onDownloadProgress [OF assms]])
     (simp_all add: monitor_frameD [OF assms(1)] call_in_Ret)

lemma frame_emit_task: "monitor_frame R \<Longrightarrow> call_in R (emit_task name n E g)"
  unfolding emit_task_def
  by (rule call_in_await [OF frame_getTask]) (simp_all add: monitor_frameD call_in_Ret)

lemma frame_handler_of: "monitor_frame R \<Longrightarrow> call_in R (handler_of k n E g)"
  by (cases k)
     (simp_all add: frame_emit_task onDownloadStart_def onDownloadPause_def onDownloadStop_def
        onDownloadComplete_def onBtDownloadComplete_def onDownloadError_def)

lemma frame_downloadUri:
  assumes "monitor_frame R" and "\<And>s uris. R s (sent (AddUri uris) s)"
  shows "call_in R (downloadUri n E uri)"
proof (rule call_inI)
  fix s
  have w: "call_in R (\<lambda>s2. case watchStatus n E g s2 of
                               (p, s3) \<Rightarrow> (await p (\<lambda>task s4. (Ret task, s4)), s3))" for g
    by (rule call_in_await [OF frame_watchStatus [OF assms(1)]])
       (simp_all add: monitor_frameD [OF assms(1)] call_in_Ret)
  have y: "steps_in R (Yield (\<lambda>s2. case resp of
                                Inl e \<Rightarrow> (Fail e, s2)
                              | Inr g \<Rightarrow>
                                  if \<not> conn_open s2 then (Fail ConnectionClosed, s2)
                                  else (case watchStatus n E g s2 of
                                          (p, s3) \<Rightarrow> (await p (\<lambda>task s4. (Ret task, s4)), s3))))" for resp
  proof (cases resp)
    case (Inl e)
    then show ?thesis using monitor_frameD(3) [OF assms(1)]
      by (intro steps_in_Yield) (simp_all add: steps_in.intros)
  next
    case (Inr g)
    then show ?thesis using w [of g] monitor_frameD(3) [OF assms(1)]
      by (intro steps_in_Yield) (simp_all add: call_in_def steps_in.intros)
  qed
  show "R s (snd (downloadUri n E uri s))" and "steps_in R (fst (downloadUri n E uri s))"
    using y monitor_frameD(3) [OF assms(1)] assms(2)
    by (simp_all add: downloadUri_def addUri_def Let_def steps_in.intros)
qed

section \<open>Interleavings; what on, off, start and close leave alone\<close>

lemma frame_listActive_item:
  assumes "monitor_frame R"
  shows "call_in R (listActive_item n E st)"
proof (rule call_inI)
  fix s
  define k where "k = (\<lambda>fresh task s2. (Ret task :: nat proc, if \<not> fresh then set_status task st s2 else s2))"
  have k: "call_in R (k fresh task)" for fresh task
    unfolding k_def using monitor_frameD(3,7) [OF assms] by (intro call_in_Ret) simp
  obtain p s1 where c: "getTask n E (gid_of st) s = (p, s1)" by (cases "getTask n E (gid_of st) s")
  from call_inD [OF frame_getTask [OF assms] c] have r: "R s s1" and p: "steps_in R p" by simp_all
  have e: "listActive_item n E st s = (await p (k (task_map s (gid_of st) = None)), s1)"
    using c by (simp add: listActive_item_def k_def Let_def)
  have "steps_in R (await p (k (task_map s (gid_of st) = None)))"
    by (rule steps_in_await [OF p monitor_frameD(1) [OF assms]]) (rule k)
  then show "R s (snd (listActive_item n E st s))" and "steps_in R (fst (listActive_item n E st s))"
    using r unfolding e by simp_all
qed

lemma resume_steps_in:
  assumes "reflp R" and "\<forall>p \<in> set ps. steps_in R p" and "resume i (ps, s) = (ps', s')"
  shows "R s s' \<and> (\<forall>p \<in> set ps'. steps_in R p)"
proof (cases "i < length ps")
  case False
  then show ?thesis using assms by (simp add: resume_def reflpD)
next
  case True
  show ?thesis
  proof (cases "ps ! i")
    case (Yield f)
    obtain p1 s1 where f: "f s = (p1, s1)" by (cases "f s")
    have "steps_in R (Yield f)" using assms(2) True Yield by (metis nth_mem)
    then have "R s (snd (f s))" "steps_in R (fst (f s))" by (auto elim: steps_in.cases)
    moreover have "ps' = ps[i := p1]" "s' = s1" using assms(3) True Yield f by (simp_all add: resume_def)
    ultimately show ?thesis using f assms(2) by (auto dest: set_update_subset_insert [THEN subsetD])
  qed (use assms True in \<open>simp_all add: resume_def reflpD\<close>)
qed

lemma interleave_steps_in:
  assumes "reflp R" and "transp R"
  shows "\<forall>p \<in> set ps. steps_in R p \<Longrightarrow> interleave sched (ps, s) = (ps', s') \<Longrightarrow>
         R s s' \<and> (\<forall>p \<in> set ps'. steps_in R p)"
proof (induction sched arbitrary: ps s)
  case Nil
  then show ?case using assms(1) by (simp add: interleave_def reflpD)
next
  case (Cons i sched)
  obtain ps1 s1 where r: "resume i (ps, s) = (ps1, s1)" by (cases "resume i (ps, s)")
  from resume_steps_in [OF assms(1) Cons.prems(1) r]
  have a: "R s s1" and b: "\<forall>p \<in> set ps1. steps_in R p" by simp_all
  have "interleave sched (ps1, s1) = (ps', s')" using Cons.prems(2) r by (simp add: interleave_def)
  from Cons.IH [OF b this] a show ?case using transpD [OF assms(2)] by blast
qed

lemma spawn_all_steps_in:
  assumes "reflp R" and "transp R"
  shows "\<forall>c \<in> set cs. call_in R c \<Longrightarrow> spawn_all cs s = (ps, s') \<Longrightarrow>
         R s s' \<and> (\<forall>p \<in> set ps. steps_in R p)"
proof (induction cs arbitrary: s ps s')
  case Nil
  then show ?case using assms(1) by (simp add: reflpD)
next
  case (Cons c cs)
  obtain p s1 where c: "c s = (p, s1)" by (cases "c s")
  obtain ps1 s2 where r: "spawn_all cs s1 = (ps1, s2)" by (cases "spawn_all cs s1")
  have e: "ps = p # ps1" "s' = s2" using Cons.prems(2) c r by simp_all
  have "call_in R c" using Cons.prems(1) by simp
  from call_inD [OF this c] have a: "R s s1" "steps_in R p" by simp_all
  from Cons.IH [OF _ r] Cons.prems(1) have "R s1 s2" "\<forall>p \<in> set ps1. steps_in R p" by simp_all
  then show ?case using a e transpD [OF assms(2)] by auto
qed

lemma reflp_same_subscriptions: "reflp same_subscriptions"
  by (simp add: reflp_def same_subscriptions_def)

lemma transp_same_subscriptions: "transp same_subscriptions"
  by (rule transpI) (simp add: same_subscriptions_def)

lemma same_subscriptions_sent: "same_subscriptions s (sent q s)"
  by (simp add: same_subscriptions_def sent_def)

lemma frame_same_subscriptions: "monitor_frame same_subscriptions"
  unfolding monitor_frame_def
  by (simp add: reflp_same_subscriptions transp_same_subscriptions same_subscriptions_sent)
     (simp add: same_subscriptions_def getTask_construct_eq set_status_def emit_def)


lemma fold_dispose_frame:
  "fold dispose ds s =
     s\<lparr>conn_listeners := conn_listeners (fold dispose ds s),
       intervals := intervals (fold dispose ds s)\<rparr>"
proof (induction ds arbitrary: s)
  case Nil
  show ?case by simp
next
  case (Cons d ds)
  have "fold dispose (d # ds) s = fold dispose ds (dispose d s)" by simp
  also have "\<dots> = (dispose d s)\<lparr>conn_listeners := conn_listeners (fold dispose ds (dispose d s)),
       intervals := intervals (fold dispose ds (dispose d s))\<rparr>"
    by (rule Cons.IH)
  also have "\<dots> = s\<lparr>conn_listeners := conn_listeners (fold dispose ds (dispose d s)),
       intervals := intervals (fold dispose ds (dispose d s))\<rparr>"
    by (cases d) simp_all
  finally show ?case by simp
qed

lemma close_frame:
  "close s = s\<lparr>conn_listeners := conn_listeners (close s), intervals := intervals (close s)\<rparr>"
  unfolding close_def by (rule fold_dispose_frame)

lemma progressIds_close: "progressIds (close s) = progressIds s"
  by (subst close_frame) simp

lemma when_all_frame:
  "when_all ks s = (ds, s') \<Longrightarrow>
     s' = s\<lparr>conn_listeners := conn_listeners s', next_handle := next_handle s'\<rparr>"
proof (induction ks arbitrary: s ds s')
  case Nil
  then show ?case by simp
next
  case (Cons k ks)
  obtain ds1 s2 where r: "when_all ks (snd (aria2_when k s)) = (ds1, s2)"
    by (cases "when_all ks (snd (aria2_when k s))")
  then have "s' = s2" using Cons.prems by (simp add: aria2_when_def)
  moreover from Cons.IH [OF r]
  have "s2 = (snd (aria2_when k s))\<lparr>conn_listeners := conn_listeners s2, next_handle := next_handle s2\<rparr>" .
  ultimately show ?case by (simp add: aria2_when_def)
qed

lemma progressIds_start: "progressIds (snd (start s)) = progressIds s"
proof (cases "conn_open s")
  case False
  then show ?thesis by (simp add: start_def)
next
  case True
  obtain ds s1 where w: "when_all [DownloadStart, DownloadPause, DownloadStop, DownloadComplete,
                        BtDownloadComplete, DownloadError] s = (ds, s1)"
    by (cases "when_all [DownloadStart, DownloadPause, DownloadStop, DownloadComplete,
                        BtDownloadComplete, DownloadError] s")
  from when_all_frame [OF w] have "progressIds s1 = progressIds s"
    by (metis (no_types, lifting) state.select_convs(4) state.surjective state.update_convs(9,11))
  then show ?thesis using True w by (simp add: start_def setInterval_def)
qed

section \<open>The progress subscriptions\<close>

lemma set_add_set: "set (set_add x xs) = insert x (set xs)"
  by (auto simp: set_add_def)


text \<open>
  C9. The set of progress subscriptions only grows. \<^verbatim>\<open>on\<close> keeps every gid of
  the set and, for a key \<^verbatim>\<open>progress:\<close>\<open>gid\<close>, adds the gid; \<^verbatim>\<open>off\<close> leaves the set
  as it is. \<^verbatim>\<open>on\<close> writes nothing but the set and the emitter, and \<^verbatim>\<open>off\<close>
  nothing but the emitter. No other operation writes the set: not \<^verbatim>\<open>close\<close> or
  \<^verbatim>\<open>start\<close>, not the request of \<^verbatim>\<open>listActive\<close>, and no segment of
  \<^verbatim>\<open>getTask\<close>, \<^verbatim>\<open>watchStatus\<close>, an item of \<^verbatim>\<open>listActive\<close>, \<^verbatim>\<open>downloadUri\<close>, a
  notification handler or the timer callback, in whatever order pending calls
  are resumed.
\<close>

theorem progress_subscriptions_only_grow:
  "set (progressIds s) \<subseteq> set (progressIds (on key h s))
   \<and> (startsWith key ''progress:'' \<longrightarrow>
        drop (length ''progress:'') key \<in> set (progressIds (on key h s)))
   \<and> progressIds (off key ho s) = progressIds s
   \<and> on key h s = s\<lparr>progressIds := progressIds (on key h s), emitter := emitter (on key h s)\<rparr>
   \<and> off key ho s = s\<lparr>emitter := emitter (off key ho s)\<rparr>
   \<and> progressIds (close s) = progressIds s
   \<and> progressIds (snd (start s)) = progressIds s
   \<and> progressIds (snd (listActive_query E s)) = progressIds s
   \<and> call_in same_subscriptions (getTask n E g)
   \<and> call_in same_subscriptions (watchStatus n E g)
   \<and> call_in same_subscriptions (listActive_item n E st)
   \<and> call_in same_subscriptions (downloadUri n E uri)
   \<and> call_in same_subscriptions (handler_of k n E g)
   \<and> call_in same_subscriptions (interval_callback n E)
   \<and> ((\<forall>p \<in> set ps. steps_in same_subscriptions p) \<longrightarrow>
        progressIds (snd (interleave sched (ps, s))) = progressIds s)"
proof (intro conjI impI)
  show "set (progressIds s) \<subseteq> set (progressIds (on key h s))"
    by (auto simp: on_def Let_def set_add_set)
  show "drop (length ''progress:'') key \<in> set (progressIds (on key h s))"
    if "startsWith key ''progress:''"
    using that by (simp add: on_def Let_def set_add_set)
  show "progressIds (off key ho s) = progressIds s" by (simp add: off_def)
  show "on key h s = s\<lparr>progressIds := progressIds (on key h s), emitter := emitter (on key h s)\<rparr>"
    by (cases s) (simp add: on_def Let_def)
  show "off key ho s = s\<lparr>emitter := emitter (off key ho s)\<rparr>"
    by (cases s) (simp add: off_def)
  show "progressIds (close s) = progressIds s" by (rule progressIds_close)
  show "progressIds (snd (start s)) = progressIds s" by (rule progressIds_start)
  show "progressIds (snd (listActive_query E s)) = progressIds s"
    by (simp add: listActive_query_def tellActive_def sent_def)
  show "call_in same_subscriptions (getTask n E g)"
    by (rule frame_getTask [OF frame_same_subscriptions])
  show "call_in same_subscriptions (watchStatus n E g)"
    by (rule frame_watchStatus [OF frame_same_subscriptions])
  show "call_in same_subscriptions (listActive_item n E st)"
    by (rule frame_listActive_item [OF frame_same_subscriptions])
  show "call_in same_subscriptions (downloadUri n E uri)"
    by (rule frame_downloadUri [OF frame_same_subscriptions]) (rule same_subscriptions_sent)
  show "call_in same_subscriptions (handler_of k n E g)"
    by (rule frame_handler_of [OF frame_same_subscriptions])
  show "call_in same_subscriptions (interval_callback n E)"
    by (rule frame_interval_callback [OF frame_same_subscriptions]) (rule same_subscriptions_sent)
  show "progressIds (snd (interleave sched (ps, s))) = progressIds s"
    if a: "\<forall>p \<in> set ps. steps_in same_subscriptions p"
  proof -
    obtain ps' s' where r: "interleave sched (ps, s) = (ps', s')"
      by (cases "interleave sched (ps, s)")
    from interleave_steps_in [OF reflp_same_subscriptions transp_same_subscriptions a r]
    show ?thesis using r by (simp add: same_subscriptions_def)
  qed
qed

theorem progress_subscriptions_only_grow_witness:
  "startsWith ''progress:abc'' ''progress:''
   \<and> progressIds (on ''progress:abc'' 7 new_monitor) = [''abc'']
   \<and> progressIds (off ''progress:abc'' (Some 7) (on ''progress:abc'' 7 new_monitor)) = [''abc'']
   \<and> steps_in same_subscriptions (fst (getTask 1 torrent_server ''a'' new_monitor))
   \<and> progressIds (snd (interleave [0] ([fst (getTask 1 torrent_server ''a'' new_monitor)],
          on ''progress:abc'' 7 new_monitor))) = [''abc'']"
proof -
  have a: "startsWith ''progress:abc'' ''progress:''" by (simp add: startsWith_def)
  have b: "progressIds (on ''progress:abc'' 7 new_monitor) = [''abc'']"
    by (simp add: on_def startsWith_def set_add_def new_monitor_def)
  note t = progress_subscriptions_only_grow
    [of "on ''progress:abc'' 7 new_monitor" "''progress:abc''" 7 "Some 7" torrent_server 1 "''a''"
        "\<lparr>gid = None, following = None, bittorrent = None\<rparr>" "Inl ''u''" DownloadStart
        "[fst (getTask 1 torrent_server ''a'' new_monitor)]" "[0]"]
  from t have c0: "call_in same_subscriptions (getTask 1 torrent_server ''a'')"
    by (elim conjE)
  have c: "\<forall>p \<in> set [fst (getTask 1 torrent_server ''a'' new_monitor)]. steps_in same_subscriptions p"
    using c0 unfolding call_in_def by simp
  from t c have d: "progressIds (snd (interleave [0] ([fst (getTask 1 torrent_server ''a'' new_monitor)],
          on ''progress:abc'' 7 new_monitor))) = progressIds (on ''progress:abc'' 7 new_monitor)"
    by (elim conjE) blast
  from t have e: "progressIds (off ''progress:abc'' (Some 7) (on ''progress:abc'' 7 new_monitor))
      = progressIds (on ''progress:abc'' 7 new_monitor)"
    by (elim conjE)
  from a b c d e show ?thesis by simp
qed

section \<open>Concurrent calls of getTask\<close>

text \<open>From here on \<open>getTask\<close> is unfolded by the lemmas \<open>getTask_Suc_absent\<close>,
  \<open>getTask_Suc_closed\<close> and \<open>getTask_Suc_present\<close> only.\<close>

declare getTask.simps(2) [simp del]

lemma spawn_all_getTask:
  assumes "task_map s g = None" and "conn_open s"
    and "spawn_all (replicate N (getTask (Suc n) E g)) s = (ps, s')"
  shows "length ps = N \<and> (\<forall>p \<in> set ps. in_flight E n g s' p \<and> pending p)
         \<and> rpc_log s' = rpc_log s @ replicate N (TellStatus g)
         \<and> task_map s' g = None"
  using assms
proof (induction N arbitrary: s ps s')
  case 0
  then show ?case by simp
next
  case (Suc N)
  define s1 where "s1 = sent (TellStatus g) s"
  obtain ps1 s2 where r: "spawn_all (replicate N (getTask (Suc n) E g)) s1 = (ps1, s2)"
    by (cases "spawn_all (replicate N (getTask (Suc n) E g)) s1")
  have e: "ps = Yield (getTask_resumed (getTask n E) g (srv_tellStatus E (length (rpc_log s)) g)) # ps1"
      "s' = s2"
    using Suc.prems(3) r getTask_Suc_absent [OF Suc.prems(1,2), of n E]
    by (simp_all add: s1_def replicate_Suc)
  have "task_map s1 g = None" "conn_open s1" using Suc.prems(1,2) by (simp_all add: s1_def sent_def)
  from Suc.IH [OF this r]
  have ih: "length ps1 = N" "\<forall>p \<in> set ps1. in_flight E n g s2 p \<and> pending p"
    "rpc_log s2 = rpc_log s1 @ replicate N (TellStatus g)" "task_map s2 g = None" by simp_all
  have "rpc_log s1 = rpc_log s @ [TellStatus g]" by (simp add: s1_def sent_def)
  then have "rpc_log s2 = rpc_log s @ replicate (Suc N) (TellStatus g)"
    using ih(3) by (simp add: replicate_app_Cons_same)
  moreover have "in_flight E n g s2 (Yield (getTask_resumed (getTask n E) g (srv_tellStatus E (length (rpc_log s)) g)))"
    unfolding in_flight_def by blast
  ultimately show ?case using e ih by (simp add: pending_def)
qed


lemma resume_in_flight:
  assumes nf: "\<forall>k st. srv_tellStatus E k g = Inr st \<longrightarrow> \<not> truthy (following st)"
    and inv: "\<forall>p \<in> set ps. in_flight E n g s p"
    and r: "resume i (ps, s) = (ps', s')"
  shows "length ps' = length ps \<and> (\<forall>p \<in> set ps'. in_flight E n g s' p)
         \<and> rpc_log s' = rpc_log s
         \<and> (\<forall>j < length ps. \<not> pending (ps ! j) \<longrightarrow> ps' ! j = ps ! j)
         \<and> (i < length ps \<longrightarrow> \<not> pending (ps' ! i))"
proof (cases "i < length ps \<and> pending (ps ! i)")
  case False
  then have "resume i (ps, s) = (ps, s)"
    by (cases "ps ! i") (auto simp: resume_def pending_def)
  then show ?thesis using r inv False by auto
next
  case True
  then have i: "i < length ps" and pe: "pending (ps ! i)" by simp_all
  have "in_flight E n g s (ps ! i)" using inv i by simp
  then obtain k where y: "ps ! i = Yield (getTask_resumed (getTask n E) g (srv_tellStatus E k g))"
    using pe unfolding in_flight_def pending_def by auto
  define resp where "resp = srv_tellStatus E k g"
  obtain p1 where p1: "getTask_resumed (getTask n E) g resp s = (p1, s')" and ps': "ps' = ps[i := p1]"
    using r i y by (auto simp: resume_def resp_def split: prod.splits)
  have others: "in_flight E n g s' p" if "p \<in> set ps" "task_map s' g = task_map s g" for p
    using inv that unfolding in_flight_def by auto
  have "in_flight E n g s' p1 \<and> \<not> pending p1 \<and> rpc_log s' = rpc_log s
        \<and> (\<forall>p \<in> set ps. in_flight E n g s' p)"
  proof (cases resp)
    case (Inl e)
    then have "p1 = Fail e" "s' = s" using p1 by (simp_all add: getTask_resumed_Inl)
    then show ?thesis using inv by (simp add: in_flight_def pending_def)
  next
    case (Inr st)
    show ?thesis
    proof (cases "task_map s g")
      case (Some r0)
      then have "p1 = Ret r0" "s' = s" using p1 Inr by (simp_all add: getTask_resumed_present)
      then show ?thesis using inv Some by (simp add: in_flight_def pending_def)
    next
      case None
      have "\<not> truthy (following st)" using nf Inr unfolding resp_def by blast
      then have e: "getTask_construct g st None s = (p1, s')"
        using p1 Inr getTask_resumed_plain [OF None] by simp
      then have s': "s' = snd (getTask_construct g st None s)" by simp
      have p: "p1 = Ret (length (heap s))" using e fst_getTask_construct [of g st None s] by simp
      have m: "task_map s' g = Some (length (heap s))"
        unfolding s' by (simp add: task_map_getTask_construct)
      have l: "rpc_log s' = rpc_log s" unfolding s' by (simp add: getTask_construct_eq)
      have "in_flight E n g s' q" if "q \<in> set ps" for q
      proof -
        from inv that have "in_flight E n g s q" by simp
        then show ?thesis using None unfolding in_flight_def by auto
      qed
      then show ?thesis using p m l by (simp add: in_flight_def pending_def)
    qed
  qed
  moreover have "\<forall>j < length ps. \<not> pending (ps ! j) \<longrightarrow> ps' ! j = ps ! j"
  proof (intro allI impI)
    fix j assume "j < length ps" "\<not> pending (ps ! j)"
    then have "j \<noteq> i" using pe by auto
    then show "ps' ! j = ps ! j" using ps' by simp
  qed
  ultimately show ?thesis using ps' i
    by (auto dest: set_update_subset_insert [THEN subsetD])
qed

lemma interleave_in_flight:
  assumes nf: "\<forall>k st. srv_tellStatus E k g = Inr st \<longrightarrow> \<not> truthy (following st)"
  shows "\<forall>p \<in> set ps. in_flight E n g s p \<Longrightarrow> interleave sched (ps, s) = (ps', s') \<Longrightarrow>
         length ps' = length ps \<and> (\<forall>p \<in> set ps'. in_flight E n g s' p)
         \<and> rpc_log s' = rpc_log s
         \<and> (\<forall>j < length ps. \<not> pending (ps ! j) \<longrightarrow> ps' ! j = ps ! j)
         \<and> (\<forall>i \<in> set sched. i < length ps \<longrightarrow> \<not> pending (ps' ! i))"
proof (induction sched arbitrary: ps s)
  case Nil
  then show ?case by (simp add: interleave_def)
next
  case (Cons i sched)
  obtain ps1 s1 where r: "resume i (ps, s) = (ps1, s1)" by (cases "resume i (ps, s)")
  from resume_in_flight [OF nf Cons.prems(1) r]
  have a: "length ps1 = length ps" "\<forall>p \<in> set ps1. in_flight E n g s1 p" "rpc_log s1 = rpc_log s"
    "\<forall>j < length ps. \<not> pending (ps ! j) \<longrightarrow> ps1 ! j = ps ! j"
    "i < length ps \<longrightarrow> \<not> pending (ps1 ! i)" by simp_all
  have "interleave sched (ps1, s1) = (ps', s')" using Cons.prems(2) r by (simp add: interleave_def)
  from Cons.IH [OF a(2) this]
  have b: "length ps' = length ps1" "\<forall>p \<in> set ps'. in_flight E n g s' p" "rpc_log s' = rpc_log s1"
    "\<forall>j < length ps1. \<not> pending (ps1 ! j) \<longrightarrow> ps' ! j = ps1 ! j"
    "\<forall>i \<in> set sched. i < length ps1 \<longrightarrow> \<not> pending (ps' ! i)" by simp_all
  show ?case using a b by auto
qed

text \<open>
  C1 (as amended). Let \<open>N\<close> calls of \<^verbatim>\<open>getTask(gid)\<close> be started together for a gid
  without registry entry, and let no status that the server reports for the gid
  carry a following gid. Then, in whatever order the calls are resumed, each of
  the \<open>N\<close> calls has sent a status query of its own, every call that has returned
  has returned the registry entry of the gid, so all of them the identical
  instance, and every call that was resumed has settled. The calls share no
  pending future: each one checks the registry again after its own answer has
  arrived.
\<close>

theorem getTask_concurrent_calls:
  assumes "task_map s g = None" and "conn_open s"
    and "\<forall>k st. srv_tellStatus E k g = Inr st \<longrightarrow> \<not> truthy (following st)"
    and "interleave sched (spawn_all (replicate N (getTask (Suc n) E g)) s) = (ps, s')"
  shows "length ps = N
     \<and> rpc_log s' = rpc_log s @ replicate N (TellStatus g)
     \<and> (\<forall>i<N. \<forall>r. ps ! i = Ret r \<longrightarrow> task_map s' g = Some r)
     \<and> (\<forall>i<N. \<forall>j<N. \<forall>r r'. ps ! i = Ret r \<longrightarrow> ps ! j = Ret r' \<longrightarrow> r = r')
     \<and> (\<forall>i \<in> set sched. i < N \<longrightarrow> \<not> pending (ps ! i))"
proof -
  obtain ps0 s0 where sp: "spawn_all (replicate N (getTask (Suc n) E g)) s = (ps0, s0)"
    by (cases "spawn_all (replicate N (getTask (Suc n) E g)) s")
  from spawn_all_getTask [OF assms(1,2) sp]
  have a: "length ps0 = N" "\<forall>p \<in> set ps0. in_flight E n g s0 p"
    "rpc_log s0 = rpc_log s @ replicate N (TellStatus g)" by simp_all
  have "interleave sched (ps0, s0) = (ps, s')" using assms(4) sp by simp
  from interleave_in_flight [OF assms(3) a(2) this]
  have b: "length ps = length ps0" "\<forall>p \<in> set ps. in_flight E n g s' p" "rpc_log s' = rpc_log s0"
    "\<forall>i \<in> set sched. i < length ps0 \<longrightarrow> \<not> pending (ps ! i)" by simp_all
  have c: "task_map s' g = Some r" if "i < N" "ps ! i = Ret r" for i r
  proof -
    have "in_flight E n g s' (ps ! i)" using b(1,2) a(1) that(1) by simp
    then show ?thesis using that(2) by (simp add: in_flight_def)
  qed
  have d: "r = r'" if "i < N" "j < N" "ps ! i = Ret r" "ps ! j = Ret r'" for i j r r'
    using c [OF that(1,3)] c [OF that(2,4)] by simp
  show ?thesis using a(1,3) b(1,3,4) c d by auto
qed

lemma three_concurrent_calls:
  "interleave [2, 0, 1] (spawn_all (replicate 3 (getTask (Suc 0) torrent_server ''a'')) new_monitor)
   = ([Ret 0, Ret 0, Ret 0],
      snd (interleave [2, 0, 1] (spawn_all (replicate 3 (getTask (Suc 0) torrent_server ''a'')) new_monitor)))"
  by (simp add: eval_nat_numeral interleave_def resume_def getTask.simps(2) torrent_server_def new_monitor_def
        tellStatus_def sent_def getTask_resumed_def getTask_construct_def new_task_def set_status_def)

theorem getTask_concurrent_calls_witness:
  "task_map new_monitor ''a'' = None \<and> conn_open new_monitor
   \<and> fst (interleave [2, 0, 1]
        (spawn_all (replicate 3 (getTask (Suc 0) torrent_server ''a'')) new_monitor))
       = [Ret 0, Ret 0, Ret 0]
   \<and> rpc_log (snd (interleave [2, 0, 1]
        (spawn_all (replicate 3 (getTask (Suc 0) torrent_server ''a'')) new_monitor)))
       = [TellStatus ''a'', TellStatus ''a'', TellStatus ''a'']
   \<and> task_map (snd (interleave [2, 0, 1]
        (spawn_all (replicate 3 (getTask (Suc 0) torrent_server ''a'')) new_monitor))) ''a'' = Some 0"
proof -
  have a: "task_map new_monitor ''a'' = None" "conn_open new_monitor"
    by (simp_all add: new_monitor_def)
  have b: "\<forall>k st. srv_tellStatus torrent_server k ''a'' = Inr st \<longrightarrow> \<not> truthy (following st)"
    by (auto simp: torrent_server_def truthy_def)
  note t = getTask_concurrent_calls [OF a b three_concurrent_calls]
  from t have l: "rpc_log (snd (interleave [2, 0, 1]
        (spawn_all (replicate 3 (getTask (Suc 0) torrent_server ''a'')) new_monitor)))
       = rpc_log new_monitor @ replicate 3 (TellStatus ''a'')"
    by (elim conjE)
  from t have "\<forall>i<3. \<forall>r. [Ret 0, Ret 0, Ret 0] ! i = Ret r \<longrightarrow> task_map (snd (interleave [2, 0, 1]
        (spawn_all (replicate 3 (getTask (Suc 0) torrent_server ''a'')) new_monitor))) ''a'' = Some r"
    by (elim conjE)
  from this [rule_format, of 0 0]
  have m: "task_map (snd (interleave [2, 0, 1]
        (spawn_all (replicate 3 (getTask (Suc 0) torrent_server ''a'')) new_monitor))) ''a'' = Some 0"
    by simp
  have "rpc_log new_monitor @ replicate 3 (TellStatus ''a'')
          = [TellStatus ''a'', TellStatus ''a'', TellStatus ''a'']"
    by (simp add: new_monitor_def eval_nat_numeral)
  with l have l': "rpc_log (snd (interleave [2, 0, 1]
        (spawn_all (replicate 3 (getTask (Suc 0) torrent_server ''a'')) new_monitor)))
       = [TellStatus ''a'', TellStatus ''a'', TellStatus ''a'']"
    by (rule trans)
  have f: "fst (interleave [2, 0, 1]
        (spawn_all (replicate 3 (getTask (Suc 0) torrent_server ''a'')) new_monitor))
       = [Ret 0, Ret 0, Ret 0]"
    using three_concurrent_calls by (metis fst_conv)
  from a f l' m show ?thesis by (intro conjI)
qed

text \<open>
  C1 as stated fails: two calls of \<^verbatim>\<open>getTask\<close> for the unseen gid \<^verbatim>\<open>a\<close>, started
  together, return the identical instance, and two status queries have been sent.
\<close>

theorem getTask_single_flight_counterexample:
  "fst (interleave [0, 1]
     (spawn_all [getTask 1 torrent_server ''a'', getTask 1 torrent_server ''a''] new_monitor))
     = [Ret 0, Ret 0]
   \<and> rpc_log (snd (interleave [0, 1]
     (spawn_all [getTask 1 torrent_server ''a'', getTask 1 torrent_server ''a''] new_monitor)))
     = [TellStatus ''a'', TellStatus ''a'']"
  by (simp add: interleave_def resume_def getTask.simps(2) torrent_server_def new_monitor_def
        tellStatus_def sent_def getTask_resumed_def getTask_construct_def new_task_def set_status_def)

text \<open>
  C3. The registry does not keep one instance per gid when the status of the gid
  has a following gid that is unseen too. Two calls of \<^verbatim>\<open>getTask\<close> for \<^verbatim>\<open>t1\<close>,
  which follows \<^verbatim>\<open>t0\<close>, are in flight together, and the answers arrive in the
  order of the requests. Both calls pass the second check of the registry before
  either has constructed its task, because each awaits the parent in between.
  The first call returns the object at address 1, the second the object at
  address 2; both objects carry the gid \<^verbatim>\<open>t1\<close>, and the registry ends with the
  second.
\<close>

theorem getTask_race_two_instances:
  "fst (interleave [0, 1, 0, 0, 1, 1]
     (spawn_all [getTask (Suc (Suc 0)) torrent_server ''t1'',
                 getTask (Suc (Suc 0)) torrent_server ''t1''] new_monitor))
     = [Ret 1, Ret 2]
   \<and> map task_gid (heap (snd (interleave [0, 1, 0, 0, 1, 1]
     (spawn_all [getTask (Suc (Suc 0)) torrent_server ''t1'',
                 getTask (Suc (Suc 0)) torrent_server ''t1''] new_monitor))))
     = [''t0'', ''t1'', ''t1'']
   \<and> task_map (snd (interleave [0, 1, 0, 0, 1, 1]
     (spawn_all [getTask (Suc (Suc 0)) torrent_server ''t1'',
                 getTask (Suc (Suc 0)) torrent_server ''t1''] new_monitor))) ''t1''
     = Some 2"
  by (simp add: interleave_def resume_def getTask.simps(2) torrent_server_def new_monitor_def
        tellStatus_def sent_def getTask_resumed_def getTask_construct_def new_task_def set_status_def)

section \<open>The polling loop\<close>

lemma truthy_gid_of: "truthy (gid st) \<Longrightarrow> the (gid st) = gid_of st"
  by (auto simp: truthy_def gid_of_def split: option.splits)

lemma progress_loop_Cons_skip:
  "\<not> truthy (gid st) \<Longrightarrow> progress_loop n E (st # sts) s = progress_loop n E sts s"
  by simp

lemma progress_loop_Cons_gid:
  "truthy (gid st) \<Longrightarrow>
   progress_loop n E (st # sts) s =
     (await (fst (getTask n E (gid_of st) s))
        (\<lambda>task s2. progress_loop n E sts
           (emit (''progress:'' @ gid_of st) task
              (if task_map s (gid_of st) \<noteq> None then set_status task st s2 else s2))),
      snd (getTask n E (gid_of st) s))"
  by (simp add: truthy_gid_of Let_def split: prod.splits)

lemma getTask_same_emitted: "call_in same_emitted (getTask n E g)"
  by (rule call_in_getTask)
     (simp_all add: same_emitted_def reflp_def sent_def getTask_construct_eq)

lemma run_getTask_emitted:
  "run k (getTask n E g s) = Some (res, s') \<Longrightarrow> emitted s' = emitted s"
proof -
  have "transp same_emitted" by (rule transpI) (simp add: same_emitted_def)
  moreover have "reflp same_emitted" by (simp add: reflp_def same_emitted_def)
  ultimately show "run k (getTask n E g s) = Some (res, s') \<Longrightarrow> emitted s' = emitted s"
    using call_in_run [OF _ _ getTask_same_emitted, of k n E g s res s']
    by (simp add: same_emitted_def)
qed

lemma emitted_emit: "emitted (emit key r s) = emitted s @ [(key, r)]"
  by (simp add: emit_def)

lemma emitted_set_status: "emitted (set_status r st s) = emitted s"
  by (simp add: set_status_def)

lemma progress_loop_emits:
  "run k (progress_loop n E sts s) = Some (Inr u, s') \<Longrightarrow>
   map fst (emitted s') =
     map fst (emitted s) @ map (\<lambda>x. ''progress:'' @ gid_of x) (filter (\<lambda>x. truthy (gid x)) sts)"
proof (induction sts arbitrary: k s)
  case Nil
  then have "run k (Ret (), s) = Some (Inr u, s')" by simp
  then have "s' = s" unfolding run_Ret by simp
  then show ?case by simp
next
  case (Cons st sts)
  show ?case
  proof (cases "truthy (gid st)")
    case False
    have "run k (progress_loop n E sts s) = Some (Inr u, s')"
      using Cons.prems unfolding progress_loop_Cons_skip [OF False] .
    from Cons.IH [OF this] show ?thesis using False by simp
  next
    case True
    obtain p s1 where c: "getTask n E (gid_of st) s = (p, s1)" by (cases "getTask n E (gid_of st) s")
    define K where "K = (\<lambda>task s2. progress_loop n E sts
           (emit (''progress:'' @ gid_of st) task
              (if task_map s (gid_of st) \<noteq> None then set_status task st s2 else s2)))"
    have "run k (await p K, s1) = Some (Inr u, s')"
      using Cons.prems c unfolding progress_loop_Cons_gid [OF True] K_def by simp
    from run_await_cases [OF this] obtain k1 k2 v s2 where
      a: "run k1 (p, s1) = Some (Inr v, s2)" and b: "run k2 (K v s2) = Some (Inr u, s')"
      by auto
    have "run k1 (getTask n E (gid_of st) s) = Some (Inr v, s2)" using a c by simp
    from run_getTask_emitted [OF this] have e: "emitted s2 = emitted s" .
    from Cons.IH [OF b [unfolded K_def]]
    show ?thesis using True e by (simp add: emitted_emit emitted_set_status)
  qed
qed


lemma poll_update_simps:
  "task_map (poll_update st s) = task_map s"
  "clock (poll_update st s) = clock s"
  "rpc_log (poll_update st s) = rpc_log s"
  "length (heap (poll_update st s)) = length (heap s)"
  by (simp_all add: poll_update_def emit_def set_status_def split: option.splits)

lemma fold_poll_update_simps:
  "task_map (fold poll_update xs s) = task_map s"
  "clock (fold poll_update xs s) = clock s"
  "rpc_log (fold poll_update xs s) = rpc_log s"
  "length (heap (fold poll_update xs s)) = length (heap s)"
  by (induction xs arbitrary: s) (simp_all add: poll_update_simps)

lemma progress_loop_tracked:
  "\<forall>x \<in> set sts. truthy (gid x) \<longrightarrow> task_map s (gid_of x) \<noteq> None \<Longrightarrow>
   run (length sts) (progress_loop (Suc n) E sts s) =
     Some (Inr (), fold poll_update (filter (\<lambda>x. truthy (gid x)) sts) s)"
proof (induction sts arbitrary: s)
  case Nil
  show ?case by simp
next
  case (Cons st sts)
  show ?case
  proof (cases "truthy (gid st)")
    case False
    have "run (length sts) (progress_loop (Suc n) E sts s) =
            Some (Inr (), fold poll_update (filter (\<lambda>x. truthy (gid x)) sts) s)"
      using Cons.IH [of s] Cons.prems by simp
    from run_le [OF this, of "length (st # sts)"]
    have "run (length (st # sts)) (progress_loop (Suc n) E sts s) =
            Some (Inr (), fold poll_update (filter (\<lambda>x. truthy (gid x)) sts) s)" by simp
    then show ?thesis using False unfolding progress_loop_Cons_skip [OF False] by simp
  next
    case True
    then obtain r where r: "task_map s (gid_of st) = Some r" using Cons.prems by auto
    have t: "\<forall>x \<in> set sts. truthy (gid x) \<longrightarrow> task_map (poll_update st s) (gid_of x) \<noteq> None"
      using Cons.prems by (simp add: poll_update_simps)
    have "progress_loop (Suc n) E (st # sts) s =
            (Yield (\<lambda>s2. progress_loop (Suc n) E sts
               (emit (''progress:'' @ gid_of st) r (set_status r st s2))), s)"
      unfolding progress_loop_Cons_gid [OF True] getTask_Suc_present [OF r] using r by simp
    then have "run (length (st # sts)) (progress_loop (Suc n) E (st # sts) s) =
                 run (length sts) (progress_loop (Suc n) E sts (poll_update st s))"
      using r by (simp add: poll_update_def)
    then show ?thesis using Cons.IH [OF t] True by simp
  qed
qed

lemma emitted_fold_poll_update:
  "\<forall>x \<in> set xs. task_map s (gid_of x) \<noteq> None \<Longrightarrow>
   emitted (fold poll_update xs s) =
     emitted s @ map (\<lambda>x. (''progress:'' @ gid_of x, the (task_map s (gid_of x)))) xs"
proof (induction xs arbitrary: s)
  case Nil
  show ?case by simp
next
  case (Cons x xs)
  then obtain r where r: "task_map s (gid_of x) = Some r" by auto
  have "\<forall>y \<in> set xs. task_map (poll_update x s) (gid_of y) \<noteq> None"
    using Cons.prems by (simp add: poll_update_simps)
  from Cons.IH [OF this] show ?case
    using r by (simp add: poll_update_simps) (simp add: poll_update_def emit_def set_status_def)
qed



section \<open>Entries of the multicall answer without gid\<close>

text \<open>
  C10. An entry of the multicall answer whose \<open>gid\<close> is missing or empty is
  skipped by the polling loop, and the loop goes on with the entries after it.
  Processing a list of answers that contains such an entry is the same
  computation, from the same state, as processing the list without it, so the
  entry causes no event, no lookup, no construction and no update. What the
  loop does with the other entries is not lost: when the loop completes, the
  events it has emitted are the progress events of the entries with gid before
  and after the skipped one, one each and in their order; and when these gids
  have registry entries, the loop does complete, its final state is the one
  obtained by storing each status in its entry and emitting its event, the
  emitted events carry these entries, and registry and request log are as
  before.
\<close>

theorem progress_loop_skips_entry_without_gid:
  assumes "\<not> truthy (gid st)"
  shows "progress_loop n E (pre @ st # post) s = progress_loop n E (pre @ post) s
     \<and> (run k (progress_loop n E (pre @ st # post) s) = Some (Inr (), s') \<longrightarrow>
          map fst (emitted s') =
            map fst (emitted s)
            @ map (\<lambda>x. ''progress:'' @ gid_of x) (filter (\<lambda>x. truthy (gid x)) (pre @ post)))
     \<and> ((\<forall>x \<in> set (pre @ post). truthy (gid x) \<longrightarrow> task_map s (gid_of x) \<noteq> None) \<longrightarrow>
          run (length (pre @ st # post)) (progress_loop (Suc n) E (pre @ st # post) s) =
            Some (Inr (), fold poll_update (filter (\<lambda>x. truthy (gid x)) (pre @ post)) s)
          \<and> emitted (fold poll_update (filter (\<lambda>x. truthy (gid x)) (pre @ post)) s) =
              emitted s
              @ map (\<lambda>x. (''progress:'' @ gid_of x, the (task_map s (gid_of x))))
                    (filter (\<lambda>x. truthy (gid x)) (pre @ post))
          \<and> task_map (fold poll_update (filter (\<lambda>x. truthy (gid x)) (pre @ post)) s) = task_map s
          \<and> rpc_log (fold poll_update (filter (\<lambda>x. truthy (gid x)) (pre @ post)) s) = rpc_log s)"
proof (intro conjI impI)
  show eq: "progress_loop n E (pre @ st # post) s = progress_loop n E (pre @ post) s" for n s
    using assms
  proof (induction pre arbitrary: s)
    case Nil
    then show ?case by simp
  next
    case (Cons a pre)
    then show ?case by (simp add: Let_def split: prod.splits)
  qed
  have f: "filter (\<lambda>x. truthy (gid x)) (pre @ st # post) = filter (\<lambda>x. truthy (gid x)) (pre @ post)"
    using assms by simp
  show "map fst (emitted s') =
            map fst (emitted s)
            @ map (\<lambda>x. ''progress:'' @ gid_of x) (filter (\<lambda>x. truthy (gid x)) (pre @ post))"
    if "run k (progress_loop n E (pre @ st # post) s) = Some (Inr (), s')"
    using progress_loop_emits [OF that] unfolding f .
  assume t: "\<forall>x \<in> set (pre @ post). truthy (gid x) \<longrightarrow> task_map s (gid_of x) \<noteq> None"
  then have t': "\<forall>x \<in> set (pre @ st # post). truthy (gid x) \<longrightarrow> task_map s (gid_of x) \<noteq> None"
    using assms by auto
  show "run (length (pre @ st # post)) (progress_loop (Suc n) E (pre @ st # post) s) =
            Some (Inr (), fold poll_update (filter (\<lambda>x. truthy (gid x)) (pre @ post)) s)"
    using progress_loop_tracked [OF t'] unfolding f .
  show "emitted (fold poll_update (filter (\<lambda>x. truthy (gid x)) (pre @ post)) s) =
              emitted s
              @ map (\<lambda>x. (''progress:'' @ gid_of x, the (task_map s (gid_of x))))
                    (filter (\<lambda>x. truthy (gid x)) (pre @ post))"
    by (rule emitted_fold_poll_update) (use t in auto)
  show "task_map (fold poll_update (filter (\<lambda>x. truthy (gid x)) (pre @ post)) s) = task_map s"
    by (rule fold_poll_update_simps)
  show "rpc_log (fold poll_update (filter (\<lambda>x. truthy (gid x)) (pre @ post)) s) = rpc_log s"
    by (rule fold_poll_update_simps)
qed

theorem progress_loop_skips_entry_without_gid_witness:
  "\<not> truthy (gid \<lparr>gid = None, following = None, bittorrent = None\<rparr>)
   \<and> run 3 (progress_loop 1 torrent_server
        [\<lparr>gid = Some ''a'', following = None, bittorrent = None\<rparr>,
         \<lparr>gid = None, following = None, bittorrent = None\<rparr>,
         \<lparr>gid = Some ''b'', following = None, bittorrent = None\<rparr>] two_tasks)
     = Some (Inr (), fold poll_update
        [\<lparr>gid = Some ''a'', following = None, bittorrent = None\<rparr>,
         \<lparr>gid = Some ''b'', following = None, bittorrent = None\<rparr>] two_tasks)
   \<and> emitted (fold poll_update
        [\<lparr>gid = Some ''a'', following = None, bittorrent = None\<rparr>,
         \<lparr>gid = Some ''b'', following = None, bittorrent = None\<rparr>] two_tasks)
     = [(''progress:a'', 0), (''progress:b'', 1)]
   \<and> map task_status (heap (fold poll_update
        [\<lparr>gid = Some ''a'', following = None, bittorrent = None\<rparr>,
         \<lparr>gid = Some ''b'', following = None, bittorrent = None\<rparr>] two_tasks))
     = [Some \<lparr>gid = Some ''a'', following = None, bittorrent = None\<rparr>,
        Some \<lparr>gid = Some ''b'', following = None, bittorrent = None\<rparr>]
   \<and> map task_timestamp (heap (fold poll_update
        [\<lparr>gid = Some ''a'', following = None, bittorrent = None\<rparr>,
         \<lparr>gid = Some ''b'', following = None, bittorrent = None\<rparr>] two_tasks))
     = [Some 5, Some 5]"
proof -
  define sa where "sa = \<lparr>gid = Some ''a'', following = None, bittorrent = None\<rparr>"
  define sb where "sb = \<lparr>gid = Some ''b'', following = None, bittorrent = None\<rparr>"
  define se where "se = \<lparr>gid = None, following = None, bittorrent = None\<rparr>"
  have g: "gid_of sa = ''a''" "gid_of sb = ''b''" "truthy (gid sa)" "truthy (gid sb)" "\<not> truthy (gid se)"
    by (simp_all add: sa_def sb_def se_def gid_of_def truthy_def)
  have m: "task_map two_tasks ''a'' = Some 0" "task_map two_tasks ''b'' = Some 1"
    by (simp_all add: two_tasks_def new_monitor_def)
  have tr: "\<forall>x \<in> set ([sa] @ [sb]). truthy (gid x) \<longrightarrow> task_map two_tasks (gid_of x) \<noteq> None"
    using g m by simp
  note t = progress_loop_skips_entry_without_gid [OF g(5), of 0 torrent_server "[sa]" "[sb]" two_tasks 0 two_tasks]
  from t tr have r: "run (length ([sa] @ se # [sb])) (progress_loop (Suc 0) torrent_server ([sa] @ se # [sb]) two_tasks) =
            Some (Inr (), fold poll_update (filter (\<lambda>x. truthy (gid x)) ([sa] @ [sb])) two_tasks)"
    by (elim conjE) blast
  from t tr have e: "emitted (fold poll_update (filter (\<lambda>x. truthy (gid x)) ([sa] @ [sb])) two_tasks) =
              emitted two_tasks
              @ map (\<lambda>x. (''progress:'' @ gid_of x, the (task_map two_tasks (gid_of x))))
                    (filter (\<lambda>x. truthy (gid x)) ([sa] @ [sb]))"
    by (elim conjE) blast
  have em: "emitted two_tasks = []" by (simp add: two_tasks_def new_monitor_def)
  have h: "map task_status (heap (fold poll_update [sa, sb] two_tasks)) = [Some sa, Some sb]"
    "map task_timestamp (heap (fold poll_update [sa, sb] two_tasks)) = [Some 5, Some 5]"
    using g m by (simp_all add: poll_update_def emit_def set_status_def) (simp_all add: two_tasks_def new_monitor_def)
  have l: "[sa] @ se # [sb] = [sa, se, sb]" "length [sa, se, sb] = 3" "Suc 0 = 1"
    "filter (\<lambda>x. truthy (gid x)) ([sa] @ [sb]) = [sa, sb]"
    using g by simp_all
  have r': "run 3 (progress_loop 1 torrent_server [sa, se, sb] two_tasks)
     = Some (Inr (), fold poll_update [sa, sb] two_tasks)"
    using r unfolding l .
  have e': "emitted (fold poll_update [sa, sb] two_tasks) = [(''progress:a'', 0), (''progress:b'', 1)]"
    using e g m em unfolding l by simp
  show ?thesis using g(5) r' e' h unfolding sa_def sb_def se_def by (intro conjI)
qed

section \<open>The poll tick\<close>






lemma onDownloadProgress_closed:
  "progressIds s \<noteq> [] \<Longrightarrow> \<not> conn_open s \<Longrightarrow> onDownloadProgress n E s = (Fail ConnectionClosed, s)"
  by (simp add: onDownloadProgress_def)




lemma progressIds_on_progress:
  "progressIds (on (''progress:'' @ g) h s) = set_add g (progressIds s)"
  by (simp add: on_def Let_def startsWith_def)

lemma progressIds_on_twice:
  "progressIds (on (''progress:'' @ g) h2 (on (''progress:'' @ g) h1 s)) =
     progressIds (on (''progress:'' @ g) h1 s)"
  unfolding progressIds_on_progress by (simp add: set_add_def)








section \<open>Frames relative to getTask\<close>










section \<open>Keeping a registry entry\<close>









section \<open>Submission among other activity\<close>


lemma await_not_Fail: "await p c \<noteq> Fail e"
  by (cases p) simp_all









lemma run_among_alone: "run_among (replicate k id) c = run k c"
proof (induction k arbitrary: c)
  case 0
  obtain p s where c: "c = (p, s)" by (cases c)
  show ?case unfolding c by (cases p) simp_all
next
  case (Suc k)
  obtain p s where c: "c = (p, s)" by (cases c)
  show ?case unfolding c using Suc.IH by (cases p) simp_all
qed









end
